theory Spec2Isabelle
  imports
    Complex_Main
    "HOL-Library.Word"
    "HOL-Library.Char_ord"
    "HOL-Library.List_Lexorder"
    "HOL-Library.Multiset"
begin

unbundle bit_operations_syntax

section \<open>Go values as the reflect package sees them\<close>

text \<open>
  The sorters of \<^verbatim>\<open>generics.go\<close> reach into their records through
  \<^verbatim>\<open>reflect.ValueOf(a).FieldByName(fieldName)\<close> and then read the field with
  \<^verbatim>\<open>String()\<close>, \<^verbatim>\<open>Int()\<close>, \<^verbatim>\<open>Float()\<close> or \<^verbatim>\<open>Kind()\<close>.
  A Go value is modelled with what these four methods can observe: its kind, the name
  of its type (printed by \<^verbatim>\<open>String()\<close> on a value that is not a string), and its
  content where a method returns it. A Go string is a sequence of bytes, which is what
  \<^typ>\<open>string\<close> is; \<open><\<close> on it is the lexicographic order on the byte values.
\<close>

text \<open>\<^verbatim>\<open>reflect.Int\<close> is written \<open>Int'\<close>.\<close>

datatype intkind = Int' | Int8 | Int16 | Int32 | Int64

datatype floatkind = Float32 | Float64

datatype otherkind =
    Bool | Uint | Uint8 | Uint16 | Uint32 | Uint64 | Uintptr
  | Complex64 | Complex128 | Array | Chan | Func | Map | Slice | UnsafePointer

datatype kind =
    Invalid
  | IntKind intkind
  | FloatKind floatkind
  | String
  | Struct
  | Pointer
  | Interface
  | OtherKind otherkind

text \<open>
  A \<^verbatim>\<open>float64\<close> is observed only through \<open><\<close> and \<open>>\<close>. Every \<^verbatim>\<open>float64\<close> is a
  NaN, an infinity or a real number (the two zeros are the same real number, and they
  compare equal in Go), and the comparison of two values depends on nothing else.
\<close>

datatype float64 = NaN | NegInf | Fin real | PosInf

fun float_less :: "float64 \<Rightarrow> float64 \<Rightarrow> bool" where
  "float_less NaN y = False"
| "float_less x NaN = False"
| "float_less NegInf NegInf = False"
| "float_less NegInf y = True"
| "float_less (Fin x) NegInf = False"
| "float_less (Fin x) (Fin y) = (x < y)"
| "float_less (Fin x) PosInf = True"
| "float_less PosInf y = False"

text \<open>
  The values. \<open>VInt\<close> holds what \<^verbatim>\<open>Value.Int()\<close> returns, the field's value as an
  \<^verbatim>\<open>int64\<close>, and \<open>VFloat\<close> what \<^verbatim>\<open>Value.Float()\<close> returns. The string next to a
  kind is the name of the type as \<^verbatim>\<open>Type.String()\<close> prints it (\<^verbatim>\<open>int\<close>,
  \<^verbatim>\<open>*string\<close>, \<^verbatim>\<open>main.Person\<close>). A struct lists its fields in declaration order;
  embedded (promoted) fields are not modelled. A pointer and an interface hold nothing
  (\<^verbatim>\<open>nil\<close>) or a value.
\<close>

datatype gval =
    VString string
  | VInt intkind string "64 word"
  | VFloat floatkind string float64
  | VStruct string "(string \<times> gval) list"
  | VPtr string "gval option"
  | VIface string "gval option"
  | VOther otherkind string

text \<open>
  A panic of the reflect package: \<^verbatim>\<open>&ValueError{Method, Kind}\<close>. Nothing in the
  repository recovers from a panic, so a panic is the result of the whole call.
\<close>

datatype error = ValueError string kind

text \<open>
  A \<^verbatim>\<open>reflect.Value\<close> is a Go value or the zero Value (\<open>None\<close>), which
  \<^verbatim>\<open>FieldByName\<close> returns for a name that is not a field of the struct.
  \<^verbatim>\<open>reflect.ValueOf\<close> takes its argument as an \<^verbatim>\<open>any\<close>: it sees the value an
  interface holds, and the zero Value for a nil interface.
\<close>

type_synonym Value = "gval option"

fun ValueOf :: "gval \<Rightarrow> Value" where
  "ValueOf (VIface t None) = None"
| "ValueOf (VIface t (Some v)) = ValueOf v"
| "ValueOf v = Some v"

fun Kind :: "Value \<Rightarrow> kind" where
  "Kind None = Invalid"
| "Kind (Some (VString s)) = String"
| "Kind (Some (VInt k t i)) = IntKind k"
| "Kind (Some (VFloat k t f)) = FloatKind k"
| "Kind (Some (VStruct t fs)) = Struct"
| "Kind (Some (VPtr t p)) = Pointer"
| "Kind (Some (VIface t p)) = Interface"
| "Kind (Some (VOther k t)) = OtherKind k"

fun Type_String :: "gval \<Rightarrow> string" where
  "Type_String (VString s) = ''string''"
| "Type_String (VInt k t i) = t"
| "Type_String (VFloat k t f) = t"
| "Type_String (VStruct t fs) = t"
| "Type_String (VPtr t p) = t"
| "Type_String (VIface t p) = t"
| "Type_String (VOther k t) = t"

text \<open>\<^verbatim>\<open>FieldByName\<close> panics unless the receiver is a struct.\<close>

fun FieldByName :: "Value \<Rightarrow> string \<Rightarrow> error + Value" where
  "FieldByName (Some (VStruct t fs)) name = Inr (map_of fs name)"
| "FieldByName v name = Inl (ValueError ''reflect.Value.FieldByName'' (Kind v))"

text \<open>
  \<^verbatim>\<open>String()\<close> never panics: on a Value that is not a string it returns a
  placeholder, \<^verbatim>\<open><invalid Value>\<close> or \<^verbatim>\<open><T Value>\<close> for the type \<^verbatim>\<open>T\<close>.
\<close>

fun Value_String :: "Value \<Rightarrow> string" where
  "Value_String None = ''<invalid Value>''"
| "Value_String (Some (VString s)) = s"
| "Value_String (Some v) = ''<'' @ Type_String v @ '' Value>''"

text \<open>\<^verbatim>\<open>Int()\<close> and \<^verbatim>\<open>Float()\<close> panic on every other kind.\<close>

fun Value_Int :: "Value \<Rightarrow> error + 64 word" where
  "Value_Int (Some (VInt k t i)) = Inr i"
| "Value_Int v = Inl (ValueError ''reflect.Value.Int'' (Kind v))"

fun Value_Float :: "Value \<Rightarrow> error + float64" where
  "Value_Float (Some (VFloat k t f)) = Inr f"
| "Value_Float v = Inl (ValueError ''reflect.Value.Float'' (Kind v))"


section \<open>The comparator factories\<close>

text \<open>
  \<^verbatim>\<open>type Comparator[T any] func(a, b T) bool\<close>. A comparator is a function of two
  records; it returns a boolean or panics. The factories take the field name and the
  direction, and nothing else.
\<close>

type_synonym Comparator = "gval \<Rightarrow> gval \<Rightarrow> error + bool"

text \<open>Sequencing: a panic of the first computation is the result of both.\<close>

fun and_then :: "error + 'a \<Rightarrow> ('a \<Rightarrow> error + 'b) \<Rightarrow> error + 'b" where
  "and_then (Inl e) f = Inl e"
| "and_then (Inr x) f = f x"

definition NewStringSorter :: "string \<Rightarrow> bool \<Rightarrow> Comparator" where
  "NewStringSorter fieldName ascending = (\<lambda>a b.
     and_then (FieldByName (ValueOf a) fieldName) (\<lambda>fieldA.
     and_then (FieldByName (ValueOf b) fieldName) (\<lambda>fieldB.
       let strA = Value_String fieldA;
           strB = Value_String fieldB
       in if ascending then Inr (strA < strB) else Inr (strA > strB))))"

definition NewIntSorter :: "string \<Rightarrow> bool \<Rightarrow> Comparator" where
  "NewIntSorter fieldName ascending = (\<lambda>a b.
     and_then (FieldByName (ValueOf a) fieldName) (\<lambda>fieldA.
     and_then (FieldByName (ValueOf b) fieldName) (\<lambda>fieldB.
     and_then (Value_Int fieldA) (\<lambda>intA.
     and_then (Value_Int fieldB) (\<lambda>intB.
       if ascending then Inr (intA <s intB) else Inr (intB <s intA))))))"

text \<open>
  \<^verbatim>\<open>SortByFloatField\<close> has no factory of its own; \<open>floatLess\<close> is the comparison
  in its closure, on the two records \<^verbatim>\<open>slice[i]\<close> and \<^verbatim>\<open>slice[j]\<close>.
\<close>

definition floatLess :: "string \<Rightarrow> bool \<Rightarrow> Comparator" where
  "floatLess fieldName ascending = (\<lambda>a b.
     and_then (FieldByName (ValueOf a) fieldName) (\<lambda>valueI.
     and_then (FieldByName (ValueOf b) fieldName) (\<lambda>valueJ.
     and_then (Value_Float valueI) (\<lambda>floatI.
     and_then (Value_Float valueJ) (\<lambda>floatJ.
       if ascending then Inr (float_less floatI floatJ)
       else Inr (float_less floatJ floatI))))))"

text \<open>
  \<^verbatim>\<open>NewGenericSorter\<close> switches on the kind of the first operand's field at every
  comparison; its \<^verbatim>\<open>default\<close> branch returns \<^verbatim>\<open>false\<close>.
\<close>

definition NewGenericSorter :: "string \<Rightarrow> bool \<Rightarrow> Comparator" where
  "NewGenericSorter fieldName ascending = (\<lambda>a b.
     and_then (FieldByName (ValueOf a) fieldName) (\<lambda>fieldA.
     and_then (FieldByName (ValueOf b) fieldName) (\<lambda>fieldB.
       (case Kind fieldA of
          String \<Rightarrow>
            (let strA = Value_String fieldA;
                 strB = Value_String fieldB
             in if ascending then Inr (strA < strB) else Inr (strA > strB))
        | IntKind k \<Rightarrow>
            and_then (Value_Int fieldA) (\<lambda>intA.
            and_then (Value_Int fieldB) (\<lambda>intB.
              if ascending then Inr (intA <s intB) else Inr (intB <s intA)))
        | FloatKind k \<Rightarrow>
            and_then (Value_Float fieldA) (\<lambda>floatA.
            and_then (Value_Float fieldB) (\<lambda>floatB.
              if ascending then Inr (float_less floatA floatB)
              else Inr (float_less floatB floatA)))
        | _ \<Rightarrow> Inr False))))"


section \<open>sort.Slice\<close>

text \<open>
  \<^verbatim>\<open>sort.Slice(x, less)\<close> belongs to Go's standard library. It works on the slice in
  place, through \<^verbatim>\<open>less(i, j)\<close> and \<^verbatim>\<open>swap(i, j)\<close> on indices: the slice is the state,
  and \<open>less\<close> reads it. On a slice of at most \<^verbatim>\<open>maxInsertion = 12\<close> elements it runs
  \<^verbatim>\<open>insertionSort_func\<close>:
  \<^verbatim>\<open>
  for i := a + 1; i < b; i++ {
      for j := i; j > a && data.Less(j, j-1); j-- {
          data.Swap(j, j-1)
      }
  }
  \<close>
  On a longer slice it runs the pattern-defeating quicksort, which is taken as the
  parameter \<open>pdq\<close>. A panic of \<open>less\<close> ends the sort.
\<close>

type_synonym 'a lessfn = "'a list \<Rightarrow> nat \<Rightarrow> nat \<Rightarrow> error + bool"

definition swap :: "'a list \<Rightarrow> nat \<Rightarrow> nat \<Rightarrow> 'a list" where
  "swap xs i j = xs[i := xs ! j, j := xs ! i]"

fun insertion_inner :: "'a lessfn \<Rightarrow> nat \<Rightarrow> nat \<Rightarrow> 'a list \<Rightarrow> error + 'a list" where
  "insertion_inner less' a j xs =
     (if j > a then
        and_then (less' xs j (j - 1)) (\<lambda>c.
          if c then insertion_inner less' a (j - 1) (swap xs j (j - 1)) else Inr xs)
      else Inr xs)"

function insertion_outer :: "'a lessfn \<Rightarrow> nat \<Rightarrow> nat \<Rightarrow> nat \<Rightarrow> 'a list \<Rightarrow> error + 'a list" where
  "insertion_outer less' a b i xs =
     (if i < b then
        and_then (insertion_inner less' a i xs) (\<lambda>ys.
          insertion_outer less' a b (i + 1) ys)
      else Inr xs)"
  by pat_completeness auto
termination
  by (relation "measure (\<lambda>(less', a, b, i, xs). b - i)") auto

definition insertionSort_func :: "'a lessfn \<Rightarrow> nat \<Rightarrow> nat \<Rightarrow> 'a list \<Rightarrow> error + 'a list" where
  "insertionSort_func less' a b xs = insertion_outer less' a b (a + 1) xs"

definition maxInsertion :: nat where
  "maxInsertion = 12"

definition sort_Slice ::
  "('a lessfn \<Rightarrow> 'a list \<Rightarrow> error + 'a list) \<Rightarrow> 'a list \<Rightarrow> 'a lessfn \<Rightarrow> error + 'a list" where
  "sort_Slice pdq x less' =
     (if length x \<le> maxInsertion then insertionSort_func less' 0 (length x) x
      else pdq less' x)"


section \<open>The quicksort of sort.Slice\<close>

text \<open>
  On a slice of more than \<^verbatim>\<open>maxInsertion\<close> elements \<^verbatim>\<open>sort.Slice\<close> runs the
  rest of \<^verbatim>\<open>pdqsort_func\<close> of Go's \<^verbatim>\<open>sort\<close> package. Its functions follow, one
  for one; a \<^verbatim>\<open>for\<close> loop is the recursive function named after it. Indices are
  Go's \<^verbatim>\<open>int\<close>, integers here (natural numbers in \<^verbatim>\<open>siftDown_func\<close>, whose
  indices only grow); \<open>Less\<close> and \<open>Swap\<close> are \<^verbatim>\<open>data.Less\<close> and
  \<^verbatim>\<open>data.Swap\<close>. Every loop is shown to end.
\<close>

definition Less :: "'a lessfn \<Rightarrow> 'a list \<Rightarrow> int \<Rightarrow> int \<Rightarrow> error + bool" where
  "Less less' xs i j = less' xs (nat i) (nat j)"

definition Swap :: "'a list \<Rightarrow> int \<Rightarrow> int \<Rightarrow> 'a list" where
  "Swap xs i j = swap xs (nat i) (nat j)"

text \<open>
  \<^verbatim>\<open>siftDown_func\<close> and \<^verbatim>\<open>heapSort_func\<close>, the fallback when \<^verbatim>\<open>limit\<close>
  reaches zero. \<open>root'\<close> is the loop variable \<^verbatim>\<open>root\<close>, which starts at \<^verbatim>\<open>lo\<close>;
  \<open>heap_build\<close> and \<open>heap_pop\<close> are the two loops of \<^verbatim>\<open>heapSort_func\<close>, which
  count \<^verbatim>\<open>i\<close> down to zero.
\<close>

function siftDown_func :: "'a lessfn \<Rightarrow> nat \<Rightarrow> nat \<Rightarrow> nat \<Rightarrow> 'a list \<Rightarrow> error + 'a list" where
  "siftDown_func less' root' hi first xs =
     (let child = 2 * root' + 1 in
      if child \<ge> hi then Inr xs
      else
        (case (if child + 1 < hi then less' xs (first + child) (first + child + 1) else Inr False) of
           Inl e \<Rightarrow> Inl e
         | Inr c \<Rightarrow>
             (let child = (if c then child + 1 else child) in
              (case less' xs (first + root') (first + child) of
                 Inl e \<Rightarrow> Inl e
               | Inr lt \<Rightarrow>
                   if \<not> lt then Inr xs
                   else siftDown_func less' child hi first (swap xs (first + root') (first + child))))))"
  by pat_completeness auto
termination
  by (relation "measure (\<lambda>(less', root', hi, first, xs). hi - root')") (auto split: if_splits)

function heap_build :: "'a lessfn \<Rightarrow> int \<Rightarrow> nat \<Rightarrow> nat \<Rightarrow> 'a list \<Rightarrow> error + 'a list" where
  "heap_build less' i hi first xs =
     (if i \<ge> 0 then
        (case siftDown_func less' (nat i) hi first xs of
           Inl e \<Rightarrow> Inl e
         | Inr ys \<Rightarrow> heap_build less' (i - 1) hi first ys)
      else Inr xs)"
  by pat_completeness auto
termination
  by (relation "measure (\<lambda>(less', i, hi, first, xs). nat (i + 1))") auto

function heap_pop :: "'a lessfn \<Rightarrow> int \<Rightarrow> nat \<Rightarrow> 'a list \<Rightarrow> error + 'a list" where
  "heap_pop less' i first xs =
     (if i \<ge> 0 then
        (case siftDown_func less' 0 (nat i) first (swap xs first (first + nat i)) of
           Inl e \<Rightarrow> Inl e
         | Inr ys \<Rightarrow> heap_pop less' (i - 1) first ys)
      else Inr xs)"
  by pat_completeness auto
termination
  by (relation "measure (\<lambda>(less', i, first, xs). nat (i + 1))") auto

declare siftDown_func.simps [simp del]
declare heap_build.simps [simp del]
declare heap_pop.simps [simp del]

definition heapSort_func :: "'a lessfn \<Rightarrow> nat \<Rightarrow> nat \<Rightarrow> 'a list \<Rightarrow> error + 'a list" where
  "heapSort_func less' a b xs =
     (let first = a; hi = b - a in
      case heap_build less' (int ((hi - 1) div 2)) hi first xs of
        Inl e \<Rightarrow> Inl e
      | Inr ys \<Rightarrow> heap_pop less' (int hi - 1) first ys)"

text \<open>
  \<^verbatim>\<open>choosePivot_func\<close> with \<^verbatim>\<open>order2_func\<close>, \<^verbatim>\<open>median_func\<close> and
  \<^verbatim>\<open>medianAdjacent_func\<close>; the counter \<^verbatim>\<open>swaps\<close>, passed by pointer in Go, is
  passed and returned.
\<close>

datatype sortedHint = unknownHint | increasingHint | decreasingHint

definition order2_func :: "'a lessfn \<Rightarrow> 'a list \<Rightarrow> int \<Rightarrow> int \<Rightarrow> nat \<Rightarrow> error + (int \<times> int \<times> nat)" where
  "order2_func less' xs a b swaps =
     (case Less less' xs b a of
        Inl e \<Rightarrow> Inl e
      | Inr c \<Rightarrow> if c then Inr (b, a, swaps + 1) else Inr (a, b, swaps))"

definition median_func :: "'a lessfn \<Rightarrow> 'a list \<Rightarrow> int \<Rightarrow> int \<Rightarrow> int \<Rightarrow> nat \<Rightarrow> error + (int \<times> nat)" where
  "median_func less' xs a b c swaps =
     (case order2_func less' xs a b swaps of
        Inl e \<Rightarrow> Inl e
      | Inr (a, b, swaps) \<Rightarrow>
     (case order2_func less' xs b c swaps of
        Inl e \<Rightarrow> Inl e
      | Inr (b, c, swaps) \<Rightarrow>
     (case order2_func less' xs a b swaps of
        Inl e \<Rightarrow> Inl e
      | Inr (a, b, swaps) \<Rightarrow> Inr (b, swaps))))"

definition medianAdjacent_func :: "'a lessfn \<Rightarrow> 'a list \<Rightarrow> int \<Rightarrow> nat \<Rightarrow> error + (int \<times> nat)" where
  "medianAdjacent_func less' xs a swaps = median_func less' xs (a - 1) a (a + 1) swaps"

definition shortestNinther :: int where
  "shortestNinther = 50"

definition maxSwaps :: nat where
  "maxSwaps = 4 * 3"

definition choosePivot_func :: "'a lessfn \<Rightarrow> 'a list \<Rightarrow> int \<Rightarrow> int \<Rightarrow> error + (int \<times> sortedHint)" where
  "choosePivot_func less' xs a b =
     (let l = b - a;
          swaps = 0;
          i = a + l div 4 * 1;
          j = a + l div 4 * 2;
          k = a + l div 4 * 3
      in
      case (if l \<ge> 8 then
              (case (if l \<ge> shortestNinther then
                       (case medianAdjacent_func less' xs i swaps of
                          Inl e \<Rightarrow> Inl e
                        | Inr (i, swaps) \<Rightarrow>
                       (case medianAdjacent_func less' xs j swaps of
                          Inl e \<Rightarrow> Inl e
                        | Inr (j, swaps) \<Rightarrow>
                       (case medianAdjacent_func less' xs k swaps of
                          Inl e \<Rightarrow> Inl e
                        | Inr (k, swaps) \<Rightarrow> Inr (i, j, k, swaps))))
                     else Inr (i, j, k, swaps)) of
                 Inl e \<Rightarrow> Inl e
               | Inr (i, j, k, swaps) \<Rightarrow> median_func less' xs i j k swaps)
            else Inr (j, swaps)) of
        Inl e \<Rightarrow> Inl e
      | Inr (j, swaps) \<Rightarrow>
          if swaps = 0 then Inr (j, increasingHint)
          else if swaps = maxSwaps then Inr (j, decreasingHint)
          else Inr (j, unknownHint))"

text \<open>\<^verbatim>\<open>reverseRange_func\<close>.\<close>

function reverseRange_loop :: "'a list \<Rightarrow> int \<Rightarrow> int \<Rightarrow> 'a list" where
  "reverseRange_loop xs i j =
     (if i < j then reverseRange_loop (Swap xs i j) (i + 1) (j - 1) else xs)"
  by pat_completeness auto
termination
  by (relation "measure (\<lambda>(xs, i, j). nat (j - i))") auto

definition reverseRange_func :: "'a list \<Rightarrow> int \<Rightarrow> int \<Rightarrow> 'a list" where
  "reverseRange_func xs a b = reverseRange_loop xs a (b - 1)"

text \<open>
  \<^verbatim>\<open>breakPatterns_func\<close> swaps three elements with elements at pseudo-random
  places. \<open>bits_Len\<close> is \<^verbatim>\<open>bits.Len\<close>. The generator \<^verbatim>\<open>xorshift.Next\<close> is the
  parameter \<open>Next\<close>: a step function on the 64-bit state.
\<close>

fun bits_Len :: "nat \<Rightarrow> nat" where
  "bits_Len n = (if n = 0 then 0 else Suc (bits_Len (n div 2)))"

definition nextPowerOfTwo :: "int \<Rightarrow> 64 word" where
  "nextPowerOfTwo length' = push_bit (bits_Len (nat length')) 1"

function breakPatterns_loop ::
  "(64 word \<Rightarrow> 64 word) \<Rightarrow> int \<Rightarrow> 64 word \<Rightarrow> 64 word \<Rightarrow> int \<Rightarrow> int \<Rightarrow> int \<Rightarrow> 'a list \<Rightarrow> 'a list" where
  "breakPatterns_loop Next i random modulus idx a length' xs =
     (if i < 3 then
        (let random = Next random;
             other = uint (random AND (modulus - 1));
             other = (if other \<ge> length' then other - length' else other)
         in breakPatterns_loop Next (i + 1) random modulus idx a length'
              (Swap xs (idx - 1 + i) (a + other)))
      else xs)"
  by pat_completeness auto
termination
  by (relation "measure (\<lambda>(Next, i, random, modulus, idx, a, length', xs). nat (3 - i))") auto

definition breakPatterns_func :: "(64 word \<Rightarrow> 64 word) \<Rightarrow> 'a list \<Rightarrow> int \<Rightarrow> int \<Rightarrow> 'a list" where
  "breakPatterns_func Next xs a b =
     (let length' = b - a in
      if length' \<ge> 8 then
        (let random = word_of_int length';
             modulus = nextPowerOfTwo length';
             idx = a + (length' div 4) * 2 - 1
         in breakPatterns_loop Next 0 random modulus idx a length' xs)
      else xs)"

text \<open>
  \<^verbatim>\<open>partialInsertionSort_func\<close>: \<open>pis_scan\<close> is its loop
  \<^verbatim>\<open>for i < b && !data.Less(i, i-1) { i++ }\<close>, \<open>shift_left\<close> and \<open>shift_right\<close>
  are the two shifting loops. It returns whether the slice is sorted at the end.
\<close>

function pis_scan :: "'a lessfn \<Rightarrow> int \<Rightarrow> int \<Rightarrow> 'a list \<Rightarrow> error + int" where
  "pis_scan less' b i xs =
     (if i < b then
        (case Less less' xs i (i - 1) of
           Inl e \<Rightarrow> Inl e
         | Inr c \<Rightarrow> if \<not> c then pis_scan less' b (i + 1) xs else Inr i)
      else Inr i)"
  by pat_completeness auto
termination
  by (relation "measure (\<lambda>(less', b, i, xs). nat (b - i))") auto

function shift_left :: "'a lessfn \<Rightarrow> int \<Rightarrow> 'a list \<Rightarrow> error + 'a list" where
  "shift_left less' j xs =
     (if j \<ge> 1 then
        (case Less less' xs j (j - 1) of
           Inl e \<Rightarrow> Inl e
         | Inr c \<Rightarrow> if \<not> c then Inr xs else shift_left less' (j - 1) (Swap xs j (j - 1)))
      else Inr xs)"
  by pat_completeness auto
termination
  by (relation "measure (\<lambda>(less', j, xs). nat j)") auto

function shift_right :: "'a lessfn \<Rightarrow> int \<Rightarrow> int \<Rightarrow> 'a list \<Rightarrow> error + 'a list" where
  "shift_right less' b j xs =
     (if j < b then
        (case Less less' xs j (j - 1) of
           Inl e \<Rightarrow> Inl e
         | Inr c \<Rightarrow> if \<not> c then Inr xs else shift_right less' b (j + 1) (Swap xs j (j - 1)))
      else Inr xs)"
  by pat_completeness auto
termination
  by (relation "measure (\<lambda>(less', b, j, xs). nat (b - j))") auto

definition maxSteps :: nat where
  "maxSteps = 5"

definition shortestShifting :: int where
  "shortestShifting = 50"

function partialInsertionSort_loop ::
  "'a lessfn \<Rightarrow> int \<Rightarrow> int \<Rightarrow> nat \<Rightarrow> int \<Rightarrow> 'a list \<Rightarrow> error + (bool \<times> 'a list)" where
  "partialInsertionSort_loop less' a b j i xs =
     (if j < maxSteps then
        (case pis_scan less' b i xs of
           Inl e \<Rightarrow> Inl e
         | Inr i \<Rightarrow>
             if i = b then Inr (True, xs)
             else if b - a < shortestShifting then Inr (False, xs)
             else
               (let xs = Swap xs i (i - 1) in
                case (if i - a \<ge> 2 then shift_left less' (i - 1) xs else Inr xs) of
                  Inl e \<Rightarrow> Inl e
                | Inr xs \<Rightarrow>
                (case (if b - i \<ge> 2 then shift_right less' b (i + 1) xs else Inr xs) of
                  Inl e \<Rightarrow> Inl e
                | Inr xs \<Rightarrow> partialInsertionSort_loop less' a b (j + 1) i xs)))
      else Inr (False, xs))"
  by pat_completeness auto
termination
  by (relation "measure (\<lambda>(less', a, b, j, i, xs). maxSteps - j)") auto

declare reverseRange_loop.simps [simp del]
declare breakPatterns_loop.simps [simp del]
declare pis_scan.simps [simp del]
declare shift_left.simps [simp del]
declare shift_right.simps [simp del]
declare partialInsertionSort_loop.simps [simp del]

definition partialInsertionSort_func :: "'a lessfn \<Rightarrow> 'a list \<Rightarrow> int \<Rightarrow> int \<Rightarrow> error + (bool \<times> 'a list)" where
  "partialInsertionSort_func less' xs a b = partialInsertionSort_loop less' a b 0 (a + 1) xs"

text \<open>
  \<^verbatim>\<open>partition_func\<close>: \<open>partition_up\<close> is
  \<^verbatim>\<open>for i <= j && data.Less(i, a) { i++ }\<close>, \<open>partition_down\<close> is
  \<^verbatim>\<open>for i <= j && !data.Less(j, a) { j-- }\<close>, and \<open>partition_loop\<close> is the
  \<^verbatim>\<open>for { ... }\<close> around them. \<^verbatim>\<open>partitionEqual_func\<close> has the same shape with
  \<^verbatim>\<open>!data.Less(a, i)\<close> and \<^verbatim>\<open>data.Less(a, j)\<close>.
\<close>

function partition_up :: "'a lessfn \<Rightarrow> int \<Rightarrow> int \<Rightarrow> int \<Rightarrow> 'a list \<Rightarrow> error + int" where
  "partition_up less' a i j xs =
     (if i \<le> j then
        (case Less less' xs i a of
           Inl e \<Rightarrow> Inl e
         | Inr c \<Rightarrow> if c then partition_up less' a (i + 1) j xs else Inr i)
      else Inr i)"
  by pat_completeness auto
termination
  by (relation "measure (\<lambda>(less', a, i, j, xs). nat (j + 1 - i))") auto

declare partition_up.simps [simp del]

function partition_down :: "'a lessfn \<Rightarrow> int \<Rightarrow> int \<Rightarrow> int \<Rightarrow> 'a list \<Rightarrow> error + int" where
  "partition_down less' a i j xs =
     (if i \<le> j then
        (case Less less' xs j a of
           Inl e \<Rightarrow> Inl e
         | Inr c \<Rightarrow> if \<not> c then partition_down less' a i (j - 1) xs else Inr j)
      else Inr j)"
  by pat_completeness auto
termination
  by (relation "measure (\<lambda>(less', a, i, j, xs). nat (j + 1 - i))") auto

declare partition_down.simps [simp del]

function partition_loop :: "'a lessfn \<Rightarrow> int \<Rightarrow> int \<Rightarrow> int \<Rightarrow> 'a list \<Rightarrow> error + (int \<times> 'a list)" where
  "partition_loop less' a i j xs =
     (case partition_up less' a i j xs of
        Inl e \<Rightarrow> Inl e
      | Inr i \<Rightarrow>
     (case partition_down less' a i j xs of
        Inl e \<Rightarrow> Inl e
      | Inr j \<Rightarrow>
          if i > j then Inr (j, xs)
          else partition_loop less' a (i + 1) (j - 1) (Swap xs i j)))"
  by pat_completeness auto
termination
proof -
  have up: "partition_up less' a i j xs = Inr i' \<Longrightarrow> i \<le> i'"
    for less' :: "'a lessfn" and a i j xs i'
  proof (induction less' a i j xs rule: partition_up.induct)
    case (1 less' a i j xs)
    show ?case
    proof (cases "i \<le> j")
      case False
      with "1.prems" show ?thesis by (simp add: partition_up.simps)
    next
      case True
      show ?thesis
      proof (cases "Less less' xs i a")
        case (Inl e)
        with True "1.prems" show ?thesis by (simp add: partition_up.simps)
      next
        case (Inr c)
        show ?thesis
        proof (cases c)
          case False
          with True Inr "1.prems" show ?thesis by (simp add: partition_up.simps)
        next
          case c: True
          from True Inr c "1.prems" have "partition_up less' a (i + 1) j xs = Inr i'"
            by (simp add: partition_up.simps)
          from "1.IH"[OF True Inr c this] show ?thesis by simp
        qed
      qed
    qed
  qed
  have down: "partition_down less' a i j xs = Inr j' \<Longrightarrow> j' \<le> j"
    for less' :: "'a lessfn" and a i j xs j'
  proof (induction less' a i j xs rule: partition_down.induct)
    case (1 less' a i j xs)
    show ?case
    proof (cases "i \<le> j")
      case False
      with "1.prems" show ?thesis by (simp add: partition_down.simps)
    next
      case True
      show ?thesis
      proof (cases "Less less' xs j a")
        case (Inl e)
        with True "1.prems" show ?thesis by (simp add: partition_down.simps)
      next
        case (Inr c)
        show ?thesis
        proof (cases c)
          case True
          with \<open>i \<le> j\<close> Inr "1.prems" show ?thesis by (simp add: partition_down.simps)
        next
          case c: False
          from True Inr c "1.prems" have "partition_down less' a i (j - 1) xs = Inr j'"
            by (simp add: partition_down.simps)
          from "1.IH"[OF True Inr c this] show ?thesis by simp
        qed
      qed
    qed
  qed
  show ?thesis
  proof (relation "measure (\<lambda>(less', a, i, j, xs). nat (j + 1 - i))", goal_cases)
    case 1
    show ?case by simp
  next
    case (2 less' a i j xs i' j')
    from up[OF 2(1)] down[OF 2(2)] 2(3) show ?case by simp
  qed
qed


declare partition_loop.simps [simp del]

definition partition_func ::
  "'a lessfn \<Rightarrow> 'a list \<Rightarrow> int \<Rightarrow> int \<Rightarrow> int \<Rightarrow> error + (int \<times> bool \<times> 'a list)" where
  "partition_func less' xs a b pivot =
     (let xs = Swap xs a pivot;
          i = a + 1;
          j = b - 1
      in
      case partition_up less' a i j xs of
        Inl e \<Rightarrow> Inl e
      | Inr i \<Rightarrow>
     (case partition_down less' a i j xs of
        Inl e \<Rightarrow> Inl e
      | Inr j \<Rightarrow>
          if i > j then Inr (j, True, Swap xs j a)
          else
            (case partition_loop less' a (i + 1) (j - 1) (Swap xs i j) of
               Inl e \<Rightarrow> Inl e
             | Inr (j, xs) \<Rightarrow> Inr (j, False, Swap xs j a))))"

function partitionEqual_up :: "'a lessfn \<Rightarrow> int \<Rightarrow> int \<Rightarrow> int \<Rightarrow> 'a list \<Rightarrow> error + int" where
  "partitionEqual_up less' a i j xs =
     (if i \<le> j then
        (case Less less' xs a i of
           Inl e \<Rightarrow> Inl e
         | Inr c \<Rightarrow> if \<not> c then partitionEqual_up less' a (i + 1) j xs else Inr i)
      else Inr i)"
  by pat_completeness auto
termination
  by (relation "measure (\<lambda>(less', a, i, j, xs). nat (j + 1 - i))") auto

declare partitionEqual_up.simps [simp del]

function partitionEqual_down :: "'a lessfn \<Rightarrow> int \<Rightarrow> int \<Rightarrow> int \<Rightarrow> 'a list \<Rightarrow> error + int" where
  "partitionEqual_down less' a i j xs =
     (if i \<le> j then
        (case Less less' xs a j of
           Inl e \<Rightarrow> Inl e
         | Inr c \<Rightarrow> if c then partitionEqual_down less' a i (j - 1) xs else Inr j)
      else Inr j)"
  by pat_completeness auto
termination
  by (relation "measure (\<lambda>(less', a, i, j, xs). nat (j + 1 - i))") auto

declare partitionEqual_down.simps [simp del]

function partitionEqual_loop :: "'a lessfn \<Rightarrow> int \<Rightarrow> int \<Rightarrow> int \<Rightarrow> 'a list \<Rightarrow> error + (int \<times> 'a list)" where
  "partitionEqual_loop less' a i j xs =
     (case partitionEqual_up less' a i j xs of
        Inl e \<Rightarrow> Inl e
      | Inr i \<Rightarrow>
     (case partitionEqual_down less' a i j xs of
        Inl e \<Rightarrow> Inl e
      | Inr j \<Rightarrow>
          if i > j then Inr (i, xs)
          else partitionEqual_loop less' a (i + 1) (j - 1) (Swap xs i j)))"
  by pat_completeness auto
termination
proof -
  have up: "partitionEqual_up less' a i j xs = Inr i' \<Longrightarrow> i \<le> i'"
    for less' :: "'a lessfn" and a i j xs i'
  proof (induction less' a i j xs rule: partitionEqual_up.induct)
    case (1 less' a i j xs)
    show ?case
    proof (cases "i \<le> j")
      case False
      with "1.prems" show ?thesis by (simp add: partitionEqual_up.simps)
    next
      case True
      show ?thesis
      proof (cases "Less less' xs a i")
        case (Inl e)
        with True "1.prems" show ?thesis by (simp add: partitionEqual_up.simps)
      next
        case (Inr c)
        show ?thesis
        proof (cases c)
          case True
          with \<open>i \<le> j\<close> Inr "1.prems" show ?thesis by (simp add: partitionEqual_up.simps)
        next
          case c: False
          from True Inr c "1.prems" have "partitionEqual_up less' a (i + 1) j xs = Inr i'"
            by (simp add: partitionEqual_up.simps)
          from "1.IH"[OF True Inr c this] show ?thesis by simp
        qed
      qed
    qed
  qed
  have down: "partitionEqual_down less' a i j xs = Inr j' \<Longrightarrow> j' \<le> j"
    for less' :: "'a lessfn" and a i j xs j'
  proof (induction less' a i j xs rule: partitionEqual_down.induct)
    case (1 less' a i j xs)
    show ?case
    proof (cases "i \<le> j")
      case False
      with "1.prems" show ?thesis by (simp add: partitionEqual_down.simps)
    next
      case True
      show ?thesis
      proof (cases "Less less' xs a j")
        case (Inl e)
        with True "1.prems" show ?thesis by (simp add: partitionEqual_down.simps)
      next
        case (Inr c)
        show ?thesis
        proof (cases c)
          case False
          with True Inr "1.prems" show ?thesis by (simp add: partitionEqual_down.simps)
        next
          case c: True
          from \<open>i \<le> j\<close> Inr c "1.prems" have "partitionEqual_down less' a i (j - 1) xs = Inr j'"
            by (simp add: partitionEqual_down.simps)
          from "1.IH"[OF \<open>i \<le> j\<close> Inr c this] show ?thesis by simp
        qed
      qed
    qed
  qed
  show ?thesis
  proof (relation "measure (\<lambda>(less', a, i, j, xs). nat (j + 1 - i))", goal_cases)
    case 1
    show ?case by simp
  next
    case (2 less' a i j xs i' j')
    from up[OF 2(1)] down[OF 2(2)] 2(3) show ?case by simp
  qed
qed

declare partitionEqual_loop.simps [simp del]

definition partitionEqual_func ::
  "'a lessfn \<Rightarrow> 'a list \<Rightarrow> int \<Rightarrow> int \<Rightarrow> int \<Rightarrow> error + (int \<times> 'a list)" where
  "partitionEqual_func less' xs a b pivot =
     partitionEqual_loop less' a (a + 1) (b - 1) (Swap xs a pivot)"

text \<open>
  \<^verbatim>\<open>pdqsort_func\<close>. The variables of its \<^verbatim>\<open>for\<close> loop (\<^verbatim>\<open>a\<close>, \<^verbatim>\<open>b\<close>,
  \<^verbatim>\<open>limit\<close>, \<^verbatim>\<open>wasBalanced\<close>, \<^verbatim>\<open>wasPartitioned\<close>) are the arguments of
  \<open>pdqsort_loop\<close>; the function calls itself on the shorter side and goes round the
  loop for the longer one. \<open>sort_Slice_pdqsort\<close> is the body of \<^verbatim>\<open>sort.Slice\<close>:
  \<^verbatim>\<open>limit := bits.Len(uint(length)); pdqsort_func(lessSwap{less, swap}, 0, length, limit)\<close>.
  It is what the parameter \<open>pdq\<close> of \<open>sort_Slice\<close> stands for.
\<close>

function pdqsort_loop ::
  "(64 word \<Rightarrow> 64 word) \<Rightarrow> 'a lessfn \<Rightarrow> int \<Rightarrow> int \<Rightarrow> nat \<Rightarrow> bool \<Rightarrow> bool \<Rightarrow> 'a list
     \<Rightarrow> error + 'a list" where
  "pdqsort_loop Next less' a b limit wasBalanced wasPartitioned xs =
     (let length' = b - a in
      if length' \<le> int maxInsertion then insertionSort_func less' (nat a) (nat b) xs
      else if limit = 0 then heapSort_func less' (nat a) (nat b) xs
      else
        (let xs = (if \<not> wasBalanced then breakPatterns_func Next xs a b else xs);
             limit = (if \<not> wasBalanced then limit - 1 else limit)
         in
         case choosePivot_func less' xs a b of
           Inl e \<Rightarrow> Inl e
         | Inr (pivot, hint) \<Rightarrow>
             (let xs = (if hint = decreasingHint then reverseRange_func xs a b else xs);
                  pivot = (if hint = decreasingHint then (b - 1) - (pivot - a) else pivot);
                  hint = (if hint = decreasingHint then increasingHint else hint)
              in
              case (if wasBalanced \<and> wasPartitioned \<and> hint = increasingHint
                    then partialInsertionSort_func less' xs a b else Inr (False, xs)) of
                Inl e \<Rightarrow> Inl e
              | Inr (sorted', xs) \<Rightarrow>
                  if sorted' then Inr xs
                  else
                    (case (if a > 0 then Less less' xs (a - 1) pivot else Inr True) of
                       Inl e \<Rightarrow> Inl e
                     | Inr lt \<Rightarrow>
                         if a > 0 \<and> \<not> lt then
                           (case partitionEqual_func less' xs a b pivot of
                              Inl e \<Rightarrow> Inl e
                            | Inr (mid, xs) \<Rightarrow>
                                pdqsort_loop Next less' mid b limit wasBalanced wasPartitioned xs)
                         else
                           (case partition_func less' xs a b pivot of
                              Inl e \<Rightarrow> Inl e
                            | Inr (mid, alreadyPartitioned, xs) \<Rightarrow>
                                (let leftLen = mid - a;
                                     rightLen = b - mid;
                                     balanceThreshold = length' div 8
                                 in
                                 if leftLen < rightLen then
                                   (case pdqsort_loop Next less' a mid limit True True xs of
                                      Inl e \<Rightarrow> Inl e
                                    | Inr xs \<Rightarrow>
                                        pdqsort_loop Next less' (mid + 1) b limit
                                          (leftLen \<ge> balanceThreshold) alreadyPartitioned xs)
                                 else
                                   (case pdqsort_loop Next less' (mid + 1) b limit True True xs of
                                      Inl e \<Rightarrow> Inl e
                                    | Inr xs \<Rightarrow>
                                        pdqsort_loop Next less' a mid limit
                                          (rightLen \<ge> balanceThreshold) alreadyPartitioned xs)))))))"
  by pat_completeness auto
termination
proof -
  have up: "partition_up less' a i j xs = Inr i' \<Longrightarrow> i \<le> i'"
    for less' :: "'a lessfn" and a i j xs i'
  proof (induction less' a i j xs rule: partition_up.induct)
    case (1 less' a i j xs)
    from "1.prems" have
      "(if i \<le> j then
          (case Less less' xs i a of Inl e \<Rightarrow> Inl e
           | Inr c \<Rightarrow> if c then partition_up less' a (i + 1) j xs else Inr i)
        else Inr i) = Inr i'"
      by (simp add: partition_up.simps[of less' a i j xs])
    then show ?case
      using "1.IH" by (fastforce split: if_splits sum.splits)
  qed
  have down: "partition_down less' a i j xs = Inr j' \<Longrightarrow> j' \<le> j \<and> (i - 1 \<le> j' \<or> j' = j)"
    for less' :: "'a lessfn" and a i j xs j'
  proof (induction less' a i j xs rule: partition_down.induct)
    case (1 less' a i j xs)
    from "1.prems" have
      "(if i \<le> j then
          (case Less less' xs j a of Inl e \<Rightarrow> Inl e
           | Inr c \<Rightarrow> if \<not> c then partition_down less' a i (j - 1) xs else Inr j)
        else Inr j) = Inr j'"
      by (simp add: partition_down.simps[of less' a i j xs])
    then show ?case
      using "1.IH" by (fastforce split: if_splits sum.splits)
  qed
  have loop: "partition_loop less' a i j xs = Inr (jf, ys) \<Longrightarrow> a + 1 \<le> i \<Longrightarrow> a \<le> j
                \<Longrightarrow> a \<le> jf \<and> jf \<le> j"
    for less' :: "'a lessfn" and a i j xs jf ys
  proof (induction less' a i j xs rule: partition_loop.induct)
    case (1 less' a i j xs)
    from "1.prems"(1) obtain i' j' where
      i': "partition_up less' a i j xs = Inr i'" and
      j': "partition_down less' a i' j xs = Inr j'" and
      r: "(if i' > j' then Inr (j', xs)
           else partition_loop less' a (i' + 1) (j' - 1) (Swap xs i' j')) = Inr (jf, ys)"
      by (simp add: partition_loop.simps[of less' a i j xs] split: sum.splits)
    from up[OF i'] down[OF j'] "1.prems"(2,3)
    have b: "i \<le> i'" "j' \<le> j" "a \<le> j'" by auto
    show ?case
    proof (cases "i' > j'")
      case True
      with r b show ?thesis by simp
    next
      case False
      with r have "partition_loop less' a (i' + 1) (j' - 1) (Swap xs i' j') = Inr (jf, ys)"
        by simp
      from "1.IH"[OF i' j' False this] b False "1.prems"(2) show ?thesis by simp
    qed
  qed
  have part: "partition_func less' xs a b pivot = Inr (mid, alr, ys) \<Longrightarrow> a < b
                \<Longrightarrow> a \<le> mid \<and> mid < b"
    for less' :: "'a lessfn" and a b pivot xs mid alr ys
  proof -
    assume p: "partition_func less' xs a b pivot = Inr (mid, alr, ys)" and ab: "a < b"
    from p obtain i' j' where
      i': "partition_up less' a (a + 1) (b - 1) (Swap xs a pivot) = Inr i'" and
      j': "partition_down less' a i' (b - 1) (Swap xs a pivot) = Inr j'" and
      r: "(if i' > j' then Inr (j', True, Swap (Swap xs a pivot) j' a)
           else (case partition_loop less' a (i' + 1) (j' - 1) (Swap (Swap xs a pivot) i' j') of
                   Inl e \<Rightarrow> Inl e
                 | Inr (j, xs) \<Rightarrow> Inr (j, False, Swap xs j a))) = Inr (mid, alr, ys)"
      by (simp add: partition_func_def Let_def split: sum.splits)
    from up[OF i'] down[OF j'] ab
    have b: "a + 1 \<le> i'" "j' \<le> b - 1" "a \<le> j'" by auto
    show "a \<le> mid \<and> mid < b"
    proof (cases "i' > j'")
      case True
      with r b show ?thesis by simp
    next
      case False
      with r obtain zs where
        "partition_loop less' a (i' + 1) (j' - 1) (Swap (Swap xs a pivot) i' j') = Inr (mid, zs)"
        by (auto split: sum.splits)
      from loop[OF this] b False show ?thesis by simp
    qed
  qed
  have eup: "partitionEqual_up less' a i j xs = Inr i' \<Longrightarrow> i \<le> i'"
    for less' :: "'a lessfn" and a i j xs i'
  proof (induction less' a i j xs rule: partitionEqual_up.induct)
    case (1 less' a i j xs)
    from "1.prems" have
      "(if i \<le> j then
          (case Less less' xs a i of Inl e \<Rightarrow> Inl e
           | Inr c \<Rightarrow> if \<not> c then partitionEqual_up less' a (i + 1) j xs else Inr i)
        else Inr i) = Inr i'"
      by (simp add: partitionEqual_up.simps[of less' a i j xs])
    then show ?case
      using "1.IH" by (fastforce split: if_splits sum.splits)
  qed
  have eloop: "partitionEqual_loop less' a i j xs = Inr (mid, ys) \<Longrightarrow> i \<le> mid"
    for less' :: "'a lessfn" and a i j xs mid ys
  proof (induction less' a i j xs rule: partitionEqual_loop.induct)
    case (1 less' a i j xs)
    from "1.prems"(1) obtain i' j' where
      i': "partitionEqual_up less' a i j xs = Inr i'" and
      j': "partitionEqual_down less' a i' j xs = Inr j'" and
      r: "(if i' > j' then Inr (i', xs)
           else partitionEqual_loop less' a (i' + 1) (j' - 1) (Swap xs i' j')) = Inr (mid, ys)"
      by (simp add: partitionEqual_loop.simps[of less' a i j xs] split: sum.splits)
    show ?case
    proof (cases "i' > j'")
      case True
      with r eup[OF i'] show ?thesis by simp
    next
      case False
      with r have "partitionEqual_loop less' a (i' + 1) (j' - 1) (Swap xs i' j') = Inr (mid, ys)"
        by simp
      from "1.IH"[OF i' j' False this] eup[OF i'] show ?thesis by simp
    qed
  qed
  have peq: "partitionEqual_func less' xs a b pivot = Inr (mid, ys) \<Longrightarrow> a < mid"
    for less' :: "'a lessfn" and a b pivot xs mid ys
    using eloop[of less' a "a + 1" "b - 1" "Swap xs a pivot" mid ys]
    by (simp add: partitionEqual_func_def)
  show ?thesis
  proof (relation "measure (\<lambda>(Next, less', a, b, limit, wb, wp, xs). nat (b - a))", goal_cases)
    case 1
    show ?case by simp
  next
    case 2
    then show ?case using peq by (fastforce simp: maxInsertion_def)
  next
    case 3
    then show ?case using part by (fastforce simp: maxInsertion_def)
  next
    case 4
    then show ?case using part by (fastforce simp: maxInsertion_def)
  next
    case 5
    then show ?case using part by (fastforce simp: maxInsertion_def)
  next
    case 6
    then show ?case using part by (fastforce simp: maxInsertion_def)
  qed
qed

declare pdqsort_loop.simps [simp del]

definition pdqsort_func ::
  "(64 word \<Rightarrow> 64 word) \<Rightarrow> 'a lessfn \<Rightarrow> int \<Rightarrow> int \<Rightarrow> nat \<Rightarrow> 'a list \<Rightarrow> error + 'a list" where
  "pdqsort_func Next less' a b limit xs = pdqsort_loop Next less' a b limit True True xs"

definition sort_Slice_pdqsort :: "(64 word \<Rightarrow> 64 word) \<Rightarrow> 'a lessfn \<Rightarrow> 'a list \<Rightarrow> error + 'a list" where
  "sort_Slice_pdqsort Next less' x =
     (let length' = length x;
          limit = bits_Len length'
      in pdqsort_func Next less' 0 (int length') limit x)"



section \<open>The sorting functions of the repository\<close>

text \<open>
  \<^verbatim>\<open>SortWithComparator\<close> hands \<^verbatim>\<open>sort.Slice\<close> the closure
  \<^verbatim>\<open>func(i, j int) bool { return comparator(slice[i], slice[j]) }\<close>. The
  \<^verbatim>\<open>SortBy...Field\<close> functions build the same closure in place and return a
  \<^verbatim>\<open>nil\<close> error (\<open>None\<close>) after the sort.
\<close>

definition SortWithComparator ::
  "(gval lessfn \<Rightarrow> gval list \<Rightarrow> error + gval list) \<Rightarrow> gval list \<Rightarrow> Comparator
     \<Rightarrow> error + gval list" where
  "SortWithComparator pdq slice' comparator =
     sort_Slice pdq slice' (\<lambda>s i j. comparator (s ! i) (s ! j))"

definition SortByStringField ::
  "(gval lessfn \<Rightarrow> gval list \<Rightarrow> error + gval list) \<Rightarrow> gval list \<Rightarrow> string \<Rightarrow> bool
     \<Rightarrow> error + (gval list \<times> string option)" where
  "SortByStringField pdq slice' fieldName ascending =
     and_then (sort_Slice pdq slice'
                 (\<lambda>s i j. NewStringSorter fieldName ascending (s ! i) (s ! j)))
       (\<lambda>sorted_slice. Inr (sorted_slice, None))"

definition SortByIntField ::
  "(gval lessfn \<Rightarrow> gval list \<Rightarrow> error + gval list) \<Rightarrow> gval list \<Rightarrow> string \<Rightarrow> bool
     \<Rightarrow> error + (gval list \<times> string option)" where
  "SortByIntField pdq slice' fieldName ascending =
     and_then (sort_Slice pdq slice'
                 (\<lambda>s i j. NewIntSorter fieldName ascending (s ! i) (s ! j)))
       (\<lambda>sorted_slice. Inr (sorted_slice, None))"

definition SortByFloatField ::
  "(gval lessfn \<Rightarrow> gval list \<Rightarrow> error + gval list) \<Rightarrow> gval list \<Rightarrow> string \<Rightarrow> bool
     \<Rightarrow> error + (gval list \<times> string option)" where
  "SortByFloatField pdq slice' fieldName ascending =
     and_then (sort_Slice pdq slice'
                 (\<lambda>s i j. floatLess fieldName ascending (s ! i) (s ! j)))
       (\<lambda>sorted_slice. Inr (sorted_slice, None))"



section \<open>The linked list and its iterator\<close>

text \<open>
  \<^verbatim>\<open>List[T]\<close> of \<^verbatim>\<open>range-over-iterators.go\<close> and \<^verbatim>\<open>generics.go\<close>: a struct of
  two pointers into a chain of \<^verbatim>\<open>element[T]\<close> cells. The cells live in a heap, a
  list of cells in which an address is an index and \<^verbatim>\<open>&element[T]{val: v}\<close> allocates
  the next index. \<open>next'\<close> is the field \<^verbatim>\<open>next\<close>.
\<close>

record 'a element =
  next' :: "nat option"
  val :: 'a

record List =
  head :: "nat option"
  tail :: "nat option"

type_synonym 'a heap = "'a element list"

definition empty_List :: List where
  "empty_List = \<lparr>head = None, tail = None\<rparr>"

definition Push :: "List \<times> 'a heap \<Rightarrow> 'a \<Rightarrow> List \<times> 'a heap" where
  "Push st v =
     (let lst = fst st; h = snd st in
      case tail lst of
        None \<Rightarrow>
          (let lst1 = lst\<lparr>head := Some (length h)\<rparr>
           in (lst1\<lparr>tail := head lst1\<rparr>, h @ [\<lparr>next' = None, val = v\<rparr>]))
      | Some t \<Rightarrow>
          (let h1 = h @ [\<lparr>next' = None, val = v\<rparr>];
               h2 = h1[t := (h1 ! t)\<lparr>next' := Some (length h)\<rparr>]
           in (lst\<lparr>tail := next' (h2 ! t)\<rparr>, h2)))"

text \<open>
  \<^verbatim>\<open>All\<close> returns the iterator \<^verbatim>\<open>func(yield func(T) bool)\<close>. The body of the
  \<^verbatim>\<open>range\<close> loop that consumes it has a state of its own, so \<open>yield\<close> takes the
  element and that state and returns whether to go on, with the new state. The loop over
  the cells follows \<^verbatim>\<open>next\<close> until \<^verbatim>\<open>nil\<close>; on a chain that never reaches
  \<^verbatim>\<open>nil\<close> it does not return, which is the result \<open>None\<close> (an address outside the
  heap, which no Go pointer is, gives \<open>None\<close> too). \<open>Collect_seq\<close> is
  \<^verbatim>\<open>slices.Collect\<close>: its \<open>yield\<close> appends and always asks for more.
\<close>

partial_function (option) All_loop ::
  "'a heap \<Rightarrow> ('a \<Rightarrow> 's \<Rightarrow> bool \<times> 's) \<Rightarrow> nat option \<Rightarrow> 's \<Rightarrow> 's option" where
  "All_loop h yield e s =
     (case e of
        None \<Rightarrow> Some s
      | Some a \<Rightarrow>
          if a < length h then
            (case yield (val (h ! a)) s of
               (cont, s') \<Rightarrow> if \<not> cont then Some s' else All_loop h yield (next' (h ! a)) s')
          else None)"

declare All_loop.simps [code]

definition All_List :: "List \<times> 'a heap \<Rightarrow> ('a \<Rightarrow> 's \<Rightarrow> bool \<times> 's) \<Rightarrow> 's \<Rightarrow> 's option" where
  "All_List st = (\<lambda>yield s. All_loop (snd st) yield (head (fst st)) s)"

definition Collect_seq :: "(('a \<Rightarrow> 'a list \<Rightarrow> bool \<times> 'a list) \<Rightarrow> 'a list \<Rightarrow> 'a list option) \<Rightarrow> 'a list option" where
  "Collect_seq seq = seq (\<lambda>v s. (True, s @ [v])) []"

text \<open>
  \<^verbatim>\<open>AllElements\<close> (in \<^verbatim>\<open>generics.go\<close>) walks the same cells and appends each
  value to a slice.
\<close>

partial_function (option) AllElements_loop ::
  "'a heap \<Rightarrow> nat option \<Rightarrow> 'a list \<Rightarrow> 'a list option" where
  "AllElements_loop h e elems =
     (case e of
        None \<Rightarrow> Some elems
      | Some a \<Rightarrow>
          if a < length h then AllElements_loop h (next' (h ! a)) (elems @ [val (h ! a)])
          else None)"

declare AllElements_loop.simps [code]

definition AllElements :: "List \<times> 'a heap \<Rightarrow> 'a list option" where
  "AllElements st = AllElements_loop (snd st) (head (fst st)) []"

text \<open>
  The invariant of the list: the cells at the addresses \<open>as\<close>, in this order, are the
  chain from \<^verbatim>\<open>head\<close>; \<^verbatim>\<open>tail\<close> is the last of them; their values are \<open>vs\<close>.
\<close>

fun cells :: "'a heap \<Rightarrow> nat option \<Rightarrow> nat list \<Rightarrow> bool" where
  "cells h p [] = (p = None)"
| "cells h p (a # as) = (p = Some a \<and> a < length h \<and> cells h (next' (h ! a)) as)"

definition represents :: "List \<times> 'a heap \<Rightarrow> nat list \<Rightarrow> 'a list \<Rightarrow> bool" where
  "represents st as vs =
     (cells (snd st) (head (fst st)) as \<and> distinct as \<and>
      tail (fst st) = (if as = [] then None else Some (last as)) \<and>
      map (\<lambda>a. val (snd st ! a)) as = vs)"


section \<open>Orderings and sortedness\<close>

text \<open>
  The loops of the insertion sort unfold only where a proof asks for it.
\<close>

declare insertion_inner.simps [simp del]

declare insertion_outer.simps [simp del]

text \<open>
  A comparator is a strict weak ordering on a set of records when it returns a boolean on
  every pair, is asymmetric, and "not less" is transitive; irreflexivity and transitivity
  of "less" follow from these. A slice is ordered by a comparator when no later element is
  less than an earlier one.
\<close>

definition strict_weak_on :: "'a set \<Rightarrow> ('a \<Rightarrow> 'a \<Rightarrow> error + bool) \<Rightarrow> bool" where
  "strict_weak_on A cmp \<longleftrightarrow>
     (\<forall>a\<in>A. \<forall>b\<in>A. cmp a b = Inr True \<or> cmp a b = Inr False) \<and>
     (\<forall>a\<in>A. \<forall>b\<in>A. cmp a b = Inr True \<longrightarrow> cmp b a = Inr False) \<and>
     (\<forall>a\<in>A. \<forall>b\<in>A. \<forall>c\<in>A. cmp a b = Inr False \<and> cmp b c = Inr False \<longrightarrow> cmp a c = Inr False)"

definition ordered_by :: "('a \<Rightarrow> 'a \<Rightarrow> error + bool) \<Rightarrow> 'a list \<Rightarrow> bool" where
  "ordered_by cmp ys = sorted_wrt (\<lambda>a b. cmp b a = Inr False) ys"

text \<open>
  What the repository relies on from \<^verbatim>\<open>sort.Slice\<close> on a slice longer than
  \<^verbatim>\<open>maxInsertion\<close>: it touches the slice through \<^verbatim>\<open>swap\<close> only, so what it returns
  is a permutation, and with a \<^verbatim>\<open>less\<close> that is a strict weak ordering it returns
  with the slice ordered. The insertion sort itself, run on a slice of any length, is
  one such sort (\<open>insertion_only\<close>).
\<close>

definition sort_contract :: "('a lessfn \<Rightarrow> 'a list \<Rightarrow> error + 'a list) \<Rightarrow> bool" where
  "sort_contract pdq \<longleftrightarrow>
     (\<forall>less' xs ys. pdq less' xs = Inr ys \<longrightarrow> mset ys = mset xs) \<and>
     (\<forall>cmp xs. strict_weak_on (set xs) cmp \<longrightarrow>
        (\<exists>ys. pdq (\<lambda>s i j. cmp (s ! i) (s ! j)) xs = Inr ys \<and> ordered_by cmp ys))"

definition insertion_only :: "'a lessfn \<Rightarrow> 'a list \<Rightarrow> error + 'a list" where
  "insertion_only less' xs = insertionSort_func less' 0 (length xs) xs"

text \<open>
  The insertion sort as a function on lists, for the proofs: \<open>sift\<close> moves \<open>x\<close> down
  the reversed prefix \<open>rp\<close> as the inner loop does, \<open>isort\<close> is the outer loop.
\<close>

fun sift :: "('a \<Rightarrow> 'a \<Rightarrow> error + bool) \<Rightarrow> 'a list \<Rightarrow> 'a \<Rightarrow> 'a list \<Rightarrow> 'a list" where
  "sift cmp [] x acc = x # acc"
| "sift cmp (y # rp) x acc =
     (if cmp x y = Inr True then sift cmp rp x (y # acc) else rev (y # rp) @ x # acc)"

fun isort :: "('a \<Rightarrow> 'a \<Rightarrow> error + bool) \<Rightarrow> 'a list \<Rightarrow> 'a list \<Rightarrow> 'a list" where
  "isort cmp pre [] = pre"
| "isort cmp pre (x # post) = isort cmp (sift cmp (rev pre) x []) post"


section \<open>Records and what a field holds\<close>

text \<open>
  The kind of the field a comparator reads (\<open>Invalid\<close> when the struct has no field of
  that name, nothing when the record is not a struct), and the string \<^verbatim>\<open>String()\<close>
  returns for it. The kinds \<^verbatim>\<open>NewGenericSorter\<close> has a branch for are \<open>supported\<close>.
\<close>

definition field_kind :: "string \<Rightarrow> gval \<Rightarrow> kind option" where
  "field_kind fieldName a =
     (case FieldByName (ValueOf a) fieldName of Inl e \<Rightarrow> None | Inr v \<Rightarrow> Some (Kind v))"

definition field_string :: "string \<Rightarrow> gval \<Rightarrow> string" where
  "field_string fieldName a =
     (case FieldByName (ValueOf a) fieldName of Inl e \<Rightarrow> [] | Inr v \<Rightarrow> Value_String v)"

fun supported :: "kind \<Rightarrow> bool" where
  "supported String = True"
| "supported (IntKind k) = True"
| "supported (FloatKind k) = True"
| "supported k = False"

definition pointer_field :: "string \<Rightarrow> string \<Rightarrow> gval \<Rightarrow> bool" where
  "pointer_field fieldName t a =
     (case FieldByName (ValueOf a) fieldName of
        Inr (Some (VPtr t' p)) \<Rightarrow> t' = t
      | _ \<Rightarrow> False)"

text \<open>
  The three kinds of the specification's field descriptor, and a record whose field holds
  a value of one of them.
\<close>

datatype resolved = RString | RInteger | RFloat

fun holds :: "resolved \<Rightarrow> Value \<Rightarrow> bool" where
  "holds RString (Some (VString s)) = True"
| "holds RInteger (Some (VInt k t i)) = True"
| "holds RFloat (Some (VFloat k t f)) = True"
| "holds r v = False"

definition well_formed :: "string \<Rightarrow> resolved \<Rightarrow> gval \<Rightarrow> bool" where
  "well_formed fieldName r a =
     (case FieldByName (ValueOf a) fieldName of Inl e \<Rightarrow> False | Inr v \<Rightarrow> holds r v)"

text \<open>
  Records: \<^verbatim>\<open>Person{Name string; Age int}\<close> of \<^verbatim>\<open>generics.go\<close>; the same struct
  with the lower-case field names \<^verbatim>\<open>name\<close> and \<^verbatim>\<open>age\<close>; a struct with a
  \<^verbatim>\<open>bool\<close> field; and the \<^verbatim>\<open>Person\<close> with a \<^verbatim>\<open>Nickname *string\<close> of
  the README's third challenge.
\<close>

definition Person :: "string \<Rightarrow> int \<Rightarrow> gval" where
  "Person name age =
     VStruct ''main.Person'' [(''Name'', VString name), (''Age'', VInt Int' ''int'' (word_of_int age))]"

definition Entry :: "string \<Rightarrow> int \<Rightarrow> gval" where
  "Entry name age =
     VStruct ''main.entry'' [(''name'', VString name), (''age'', VInt Int' ''int'' (word_of_int age))]"

definition Member :: "string \<Rightarrow> gval" where
  "Member name = VStruct ''main.Member'' [(''Name'', VString name), (''Active'', VOther Bool ''bool'')]"

definition Nicknamed :: "string \<Rightarrow> string option \<Rightarrow> gval" where
  "Nicknamed name nickname =
     VStruct ''main.Person''
       [(''Name'', VString name), (''Nickname'', VPtr ''*string'' (map_option VString nickname))]"


section \<open>Lemmas\<close>


subsection \<open>The list\<close>

lemma cells_bound: "cells h p as \<Longrightarrow> a \<in> set as \<Longrightarrow> a < length h"
  by (induction as arbitrary: p) auto

lemma cells_extend:
  "cells h p (as @ [t]) \<Longrightarrow> distinct (as @ [t]) \<Longrightarrow> next' c = None \<Longrightarrow>
   cells ((h @ [c])[t := (((h @ [c]) ! t)\<lparr>next' := Some (length h)\<rparr>)]) p (as @ [t, length h])"
proof (induction as arbitrary: p)
  case Nil
  then show ?case by (simp add: nth_append)
next
  case (Cons a as)
  then show ?case by (auto simp: nth_append)
qed

lemma vals_extend:
  "\<forall>a \<in> set as. a < length h \<Longrightarrow> t < length h \<Longrightarrow>
   map (\<lambda>a. val (((h @ [c])[t := (((h @ [c]) ! t)\<lparr>next' := n\<rparr>)]) ! a)) as = map (\<lambda>a. val (h ! a)) as"
  by (induction as) (auto simp: nth_append nth_list_update)

lemma Push_represents:
  assumes "represents st as vs"
  shows "represents (Push st v) (as @ [length (snd st)]) (vs @ [v])"
proof (cases as rule: rev_cases)
  case Nil
  with assms show ?thesis
    by (simp add: represents_def Push_def Let_def)
next
  case (snoc bs t)
  obtain lst h where st: "st = (lst, h)" by (cases st)
  from assms snoc st have c: "cells h (head lst) (bs @ [t])" and d: "distinct (bs @ [t])"
    and tl: "tail lst = Some t" and vs: "map (\<lambda>a. val (h ! a)) (bs @ [t]) = vs"
    by (simp_all add: represents_def)
  from c have bnd: "\<forall>a \<in> set (bs @ [t]). a < length h"
    using cells_bound by blast
  then have t: "t < length h" by simp
  let ?c = "\<lparr>next' = None, val = v\<rparr>"
  let ?h2 = "(h @ [?c])[t := (((h @ [?c]) ! t)\<lparr>next' := Some (length h)\<rparr>)]"
  have P: "Push st v = (lst\<lparr>tail := Some (length h)\<rparr>, ?h2)"
    using tl t by (simp add: Push_def st Let_def)
  have c2: "cells ?h2 (head lst) (bs @ [t, length h])"
    using cells_extend[OF c d, of ?c] by simp
  have d2: "distinct (bs @ [t, length h])"
    using d bnd by auto
  have v2: "map (\<lambda>a. val (?h2 ! a)) (bs @ [t]) = vs"
    using vals_extend[OF bnd t, of ?c "Some (length h)"] vs by (simp only:)
  have v3: "val (?h2 ! length h) = v"
    using t by (simp add: nth_list_update)
  show ?thesis
    unfolding P represents_def using c2 d2 v2 v3 snoc st
    by simp
qed

lemma pushes_represent:
  "represents st as vs \<Longrightarrow> \<exists>bs. represents (foldl Push st ws) bs (vs @ ws)"
proof (induction ws arbitrary: st as vs)
  case Nil
  then show ?case by auto
next
  case (Cons w ws)
  from Push_represents[OF Cons.prems, of w] Cons.IH
  show ?case by fastforce
qed

lemma AllElements_loop_cells:
  "cells h p as \<Longrightarrow> AllElements_loop h p elems = Some (elems @ map (\<lambda>a. val (h ! a)) as)"
proof (induction as arbitrary: p elems)
  case Nil
  then show ?case by (simp add: AllElements_loop.simps)
next
  case (Cons a as)
  then show ?case by (subst AllElements_loop.simps) simp
qed

lemma All_loop_cells:
  "cells h p as \<Longrightarrow>
   All_loop h (\<lambda>v s. (True, s @ [v])) p elems = Some (elems @ map (\<lambda>a. val (h ! a)) as)"
proof (induction as arbitrary: p elems)
  case Nil
  then show ?case by (simp add: All_loop.simps)
next
  case (Cons a as)
  then show ?case by (subst All_loop.simps) simp
qed


subsection \<open>The insertion sort\<close>

lemma swap_adjacent:
  "swap (rev rp @ y # x # post) (Suc (length rp)) (length rp) = rev rp @ x # y # post"
  by (simp add: swap_def list_update_append nth_append)

lemma sift_append: "sift cmp rp x (acc @ post) = sift cmp rp x acc @ post"
  by (induction rp arbitrary: acc) (auto simp flip: append_Cons)

lemma length_sift: "length (sift cmp rp x acc) = Suc (length rp + length acc)"
  by (induction rp arbitrary: acc) auto

lemma mset_sift: "mset (sift cmp rp x acc) = add_mset x (mset rp + mset acc)"
  by (induction rp arbitrary: acc) auto

lemma mset_isort: "mset (isort cmp pre post) = mset pre + mset post"
  by (induction post arbitrary: pre) (auto simp: mset_sift)

lemma inner_sift:
  assumes "\<forall>a\<in>A. \<forall>b\<in>A. cmp a b = Inr True \<or> cmp a b = Inr False"
    and "set rp \<subseteq> A" and "x \<in> A"
  shows "insertion_inner (\<lambda>s i j. cmp (s ! i) (s ! j)) 0 (length rp) (rev rp @ x # post)
           = Inr (sift cmp rp x post)"
  using assms(2)
proof (induction rp arbitrary: post)
  case Nil
  show ?case by (simp add: insertion_inner.simps)
next
  case (Cons y rp)
  have nx: "(rev rp @ y # x # post) ! Suc (length rp) = x"
    by (simp add: nth_append)
  have ny: "(rev rp @ y # x # post) ! length rp = y"
    by (simp add: nth_append)
  from Cons.prems assms have c: "cmp x y = Inr True \<or> cmp x y = Inr False"
    by simp
  from Cons.prems have IH: "insertion_inner (\<lambda>s i j. cmp (s ! i) (s ! j)) 0 (length rp) (rev rp @ x # y # post)
           = Inr (sift cmp rp x (y # post))"
    using Cons.IH[of "y # post"] by simp
  show ?case
    using c
    by (subst insertion_inner.simps) (auto simp: nx ny swap_adjacent IH)
qed

lemma outer_isort:
  assumes "\<forall>a\<in>A. \<forall>b\<in>A. cmp a b = Inr True \<or> cmp a b = Inr False"
  shows "set pre \<union> set post \<subseteq> A \<Longrightarrow>
    insertion_outer (\<lambda>s i j. cmp (s ! i) (s ! j)) 0 (length pre + length post) (length pre) (pre @ post)
       = Inr (isort cmp pre post)"
proof (induction post arbitrary: pre)
  case Nil
  show ?case by (subst insertion_outer.simps) simp
next
  case (Cons x post)
  have inner: "insertion_inner (\<lambda>s i j. cmp (s ! i) (s ! j)) 0 (length pre) (pre @ x # post)
       = Inr (sift cmp (rev pre) x [] @ post)"
    using inner_sift[OF assms, of "rev pre" x post] Cons.prems sift_append[of cmp "rev pre" x "[]" post]
    by simp
  have sub: "set (sift cmp (rev pre) x []) \<union> set post \<subseteq> A"
  proof -
    have "set (sift cmp (rev pre) x []) = set_mset (mset (sift cmp (rev pre) x []))" by simp
    also have "\<dots> = insert x (set pre)" by (simp only: mset_sift) simp
    finally show ?thesis using Cons.prems by auto
  qed
  from Cons.IH[OF sub] have IH:
    "insertion_outer (\<lambda>s i j. cmp (s ! i) (s ! j)) 0 (Suc (length pre + length post)) (Suc (length pre))
        (sift cmp (rev pre) x [] @ post) = Inr (isort cmp (sift cmp (rev pre) x []) post)"
    by (simp add: length_sift)
  show ?case
    by (subst insertion_outer.simps) (simp add: inner IH)
qed

lemma insertionSort_isort:
  assumes "\<forall>a\<in>set xs. \<forall>b\<in>set xs. cmp a b = Inr True \<or> cmp a b = Inr False"
  shows "insertionSort_func (\<lambda>s i j. cmp (s ! i) (s ! j)) 0 (length xs) xs = Inr (isort cmp [] xs)"
proof (cases xs)
  case Nil
  then show ?thesis
    by (simp add: insertionSort_func_def insertion_outer.simps)
next
  case (Cons x post)
  have "insertion_outer (\<lambda>s i j. cmp (s ! i) (s ! j)) 0 (length [x] + length post) (length [x]) ([x] @ post)
       = Inr (isort cmp [x] post)"
    by (rule outer_isort[OF assms]) (simp add: Cons)
  then show ?thesis
    by (simp add: insertionSort_func_def Cons)
qed

lemma sift_ordered:
  assumes sw: "strict_weak_on A cmp"
  shows "set rp \<subseteq> A \<Longrightarrow> x \<in> A \<Longrightarrow> set acc \<subseteq> A \<Longrightarrow>
     ordered_by cmp (rev rp) \<Longrightarrow> ordered_by cmp (x # acc) \<Longrightarrow>
     (\<forall>p\<in>set rp. \<forall>q\<in>set acc. cmp q p = Inr False) \<Longrightarrow>
     ordered_by cmp (sift cmp rp x acc)"
proof (induction rp arbitrary: acc)
  case Nil
  then show ?case by simp
next
  case (Cons y rp)
  from Cons.prems have yA: "y \<in> A" and rpA: "set rp \<subseteq> A" by auto
  show ?case
  proof (cases "cmp x y = Inr True")
    case True
    with sw Cons.prems(2) yA have yx: "cmp y x = Inr False"
      unfolding strict_weak_on_def by blast
    have "ordered_by cmp (sift cmp rp x (y # acc))"
    proof (rule Cons.IH)
      show "set rp \<subseteq> A" by fact
      show "x \<in> A" by fact
      show "set (y # acc) \<subseteq> A" using yA Cons.prems(3) by simp
      show "ordered_by cmp (rev rp)"
        using Cons.prems(4) by (simp add: ordered_by_def sorted_wrt_append)
      show "ordered_by cmp (x # y # acc)"
        using Cons.prems(5,6) yx by (auto simp: ordered_by_def)
      show "\<forall>p\<in>set rp. \<forall>q\<in>set (y # acc). cmp q p = Inr False"
        using Cons.prems(4,6) by (auto simp: ordered_by_def sorted_wrt_append)
    qed
    with True show ?thesis by simp
  next
    case False
    with sw Cons.prems(2) yA have xy: "cmp x y = Inr False"
      unfolding strict_weak_on_def by blast
    have "\<forall>p\<in>set rp. cmp x p = Inr False"
    proof
      fix p assume p: "p \<in> set rp"
      with Cons.prems(4) have "cmp y p = Inr False"
        by (auto simp: ordered_by_def sorted_wrt_append)
      with xy sw Cons.prems(2) yA rpA p show "cmp x p = Inr False"
        unfolding strict_weak_on_def by blast
    qed
    with False xy Cons.prems(4,5,6) show ?thesis
      by (auto simp: ordered_by_def sorted_wrt_append)
  qed
qed

lemma isort_ordered:
  assumes sw: "strict_weak_on A cmp"
  shows "set pre \<union> set post \<subseteq> A \<Longrightarrow> ordered_by cmp pre \<Longrightarrow> ordered_by cmp (isort cmp pre post)"
proof (induction post arbitrary: pre)
  case Nil
  then show ?case by simp
next
  case (Cons x post)
  have o: "ordered_by cmp (sift cmp (rev pre) x [])"
    using sift_ordered[OF sw, of "rev pre" x "[]"] Cons.prems by (simp add: ordered_by_def)
  have "set (sift cmp (rev pre) x []) = set_mset (mset (sift cmp (rev pre) x []))" by simp
  also have "\<dots> = insert x (set pre)" by (simp only: mset_sift) simp
  finally have "set (sift cmp (rev pre) x []) \<union> set post \<subseteq> A" using Cons.prems by auto
  from Cons.IH[OF this o] show ?case by simp
qed

lemma insertionSort_sorts:
  assumes sw: "strict_weak_on (set xs) cmp"
  shows "\<exists>ys. insertionSort_func (\<lambda>s i j. cmp (s ! i) (s ! j)) 0 (length xs) xs = Inr ys \<and>
     mset ys = mset xs \<and> ordered_by cmp ys"
proof -
  from sw have tot: "\<forall>a\<in>set xs. \<forall>b\<in>set xs. cmp a b = Inr True \<or> cmp a b = Inr False"
    unfolding strict_weak_on_def by blast
  have "ordered_by cmp (isort cmp [] xs)"
    using isort_ordered[OF sw, of "[]" xs] by (simp add: ordered_by_def)
  then show ?thesis
    using insertionSort_isort[OF tot] by (simp add: mset_isort)
qed

lemma sift_filter:
  "\<forall>y\<in>set rp. P x \<and> P y \<longrightarrow> cmp x y \<noteq> Inr True \<Longrightarrow>
   filter P (sift cmp rp x acc) = filter P (rev rp @ x # acc)"
proof (induction rp arbitrary: acc)
  case Nil
  show ?case by simp
next
  case (Cons y rp)
  show ?case
  proof (cases "cmp x y = Inr True")
    case True
    with Cons.prems have "\<not> (P x \<and> P y)" by auto
    moreover from Cons.prems have "filter P (sift cmp rp x (y # acc)) = filter P (rev rp @ x # y # acc)"
      by (intro Cons.IH) simp
    ultimately show ?thesis using True by auto
  next
    case False
    then show ?thesis by simp
  qed
qed

lemma set_sift: "set (sift cmp rp x acc) = insert x (set rp \<union> set acc)"
proof -
  have "set (sift cmp rp x acc) = set_mset (mset (sift cmp rp x acc))" by simp
  also have "\<dots> = insert x (set rp \<union> set acc)" by (simp only: mset_sift) simp
  finally show ?thesis .
qed

lemma isort_filter:
  "\<forall>a\<in>set pre \<union> set post. \<forall>b\<in>set pre \<union> set post. P a \<and> P b \<longrightarrow> cmp a b \<noteq> Inr True \<Longrightarrow>
   filter P (isort cmp pre post) = filter P (pre @ post)"
proof (induction post arbitrary: pre)
  case Nil
  show ?case by simp
next
  case (Cons x post)
  have s: "filter P (sift cmp (rev pre) x []) = filter P (pre @ [x])"
    using sift_filter[of "rev pre" P x cmp "[]"] Cons.prems by simp
  have "filter P (isort cmp (sift cmp (rev pre) x []) post) = filter P (sift cmp (rev pre) x [] @ post)"
    by (rule Cons.IH) (use Cons.prems in \<open>auto simp: set_sift\<close>)
  with s show ?case by simp
qed

lemma swap_mset: "i < length xs \<Longrightarrow> j < length xs \<Longrightarrow> mset (swap xs i j) = mset xs"
  unfolding swap_def by (simp add: mset_swap)

lemma swap_length: "length (swap xs i j) = length xs"
  by (simp add: swap_def)

lemma inner_permutes:
  "insertion_inner less' a j xs = Inr ys \<Longrightarrow> j < length xs \<Longrightarrow>
     mset ys = mset xs \<and> length ys = length xs"
proof (induction less' a j xs rule: insertion_inner.induct)
  case (1 less' a j xs)
  show ?case
  proof (cases "j > a")
    case False
    with "1.prems" show ?thesis by (simp add: insertion_inner.simps)
  next
    case True
    show ?thesis
    proof (cases "less' xs j (j - 1)")
      case (Inl e)
      with True "1.prems" show ?thesis by (simp add: insertion_inner.simps)
    next
      case (Inr c)
      show ?thesis
      proof (cases c)
        case False
        with True Inr "1.prems" show ?thesis by (simp add: insertion_inner.simps)
      next
        case c: True
        from True Inr c "1.prems" have r: "insertion_inner less' a (j - 1) (swap xs j (j - 1)) = Inr ys"
          by (simp add: insertion_inner.simps)
        have "mset ys = mset (swap xs j (j - 1)) \<and> length ys = length (swap xs j (j - 1))"
          using "1.IH"[OF True c r] "1.prems"(2) by (simp add: swap_length)
        then show ?thesis
          using "1.prems"(2) by (simp add: swap_mset swap_length)
      qed
    qed
  qed
qed

lemma outer_permutes:
  "insertion_outer less' a b i xs = Inr ys \<Longrightarrow> b \<le> length xs \<Longrightarrow> mset ys = mset xs"
proof (induction less' a b i xs rule: insertion_outer.induct)
  case (1 less' a b i xs)
  show ?case
  proof (cases "i < b")
    case False
    with "1.prems" show ?thesis by (simp add: insertion_outer.simps)
  next
    case True
    show ?thesis
    proof (cases "insertion_inner less' a i xs")
      case (Inl e)
      with True "1.prems" show ?thesis by (simp add: insertion_outer.simps)
    next
      case (Inr zs)
      from True "1.prems"(2) have "i < length xs" by simp
      from inner_permutes[OF Inr this] have z: "mset zs = mset xs" "length zs = length xs" by simp_all
      from True Inr "1.prems" have r: "insertion_outer less' a b (i + 1) zs = Inr ys"
        by (simp add: insertion_outer.simps)
      from "1.IH"[OF True r] "1.prems"(2) z show ?thesis by simp
    qed
  qed
qed

lemma insertionSort_permutes:
  "insertionSort_func less' 0 (length xs) xs = Inr ys \<Longrightarrow> mset ys = mset xs"
  unfolding insertionSort_func_def using outer_permutes[of less' 0 "length xs" "0 + 1" xs ys] by simp

lemma sort_Slice_permutes:
  "sort_contract pdq \<Longrightarrow> sort_Slice pdq xs less' = Inr ys \<Longrightarrow> mset ys = mset xs"
  unfolding sort_Slice_def sort_contract_def
  by (auto split: if_splits dest: insertionSort_permutes)

lemma sort_Slice_sorts:
  assumes "sort_contract pdq" and "strict_weak_on (set xs) cmp"
  shows "\<exists>ys. sort_Slice pdq xs (\<lambda>s i j. cmp (s ! i) (s ! j)) = Inr ys \<and>
     mset ys = mset xs \<and> ordered_by cmp ys"
proof (cases "length xs \<le> maxInsertion")
  case True
  then show ?thesis
    using insertionSort_sorts[OF assms(2)] by (simp add: sort_Slice_def)
next
  case False
  from assms obtain ys where ys: "pdq (\<lambda>s i j. cmp (s ! i) (s ! j)) xs = Inr ys" "ordered_by cmp ys"
    unfolding sort_contract_def by blast
  moreover from assms(1) ys(1) have "mset ys = mset xs"
    unfolding sort_contract_def by blast
  ultimately show ?thesis using False by (simp add: sort_Slice_def)
qed

lemma insertion_only_contract: "sort_contract insertion_only"
  unfolding sort_contract_def insertion_only_def
  using insertionSort_permutes insertionSort_sorts by blast


subsection \<open>The comparators\<close>

lemmas eval_defs =
  SortWithComparator_def SortByStringField_def SortByIntField_def SortByFloatField_def
  sort_Slice_def maxInsertion_def insertionSort_func_def insertion_only_def
  insertion_outer.simps insertion_inner.simps swap_def
  NewStringSorter_def NewIntSorter_def NewGenericSorter_def floatLess_def
  Person_def Entry_def Member_def Nicknamed_def
  field_kind_def field_string_def pointer_field_def well_formed_def

lemma float_less_irrefl: "\<not> float_less x x"
  by (cases x) simp_all

lemma float_less_asym: "float_less x y \<Longrightarrow> \<not> float_less y x"
  by (cases x; cases y) simp_all

lemma float_less_trans: "float_less x y \<Longrightarrow> float_less y z \<Longrightarrow> float_less x z"
  by (cases x; cases y; cases z) simp_all

lemma float_not_less_not_transitive:
  "\<not> float_less (Fin 0) NaN \<and> \<not> float_less NaN (Fin 1) \<and> float_less (Fin 0) (Fin 1)"
  by simp

lemma well_formed_cases:
  assumes "well_formed F k a"
  obtains (str) s where "k = RString" "FieldByName (ValueOf a) F = Inr (Some (VString s))"
  | (int) ik t i where "k = RInteger" "FieldByName (ValueOf a) F = Inr (Some (VInt ik t i))"
  | (flt) fk t f where "k = RFloat" "FieldByName (ValueOf a) F = Inr (Some (VFloat fk t f))"
proof -
  from assms obtain v where v: "FieldByName (ValueOf a) F = Inr v" "holds k v"
    by (auto simp: well_formed_def split: sum.splits)
  from v(2) show ?thesis
    using v(1) by (cases "(k, v)" rule: holds.cases) (auto intro: str int flt)
qed

lemma field_kind_Inr: "field_kind F a = Some k \<Longrightarrow> \<exists>v. FieldByName (ValueOf a) F = Inr v \<and> Kind v = k"
  by (auto simp: field_kind_def split: sum.splits)

lemma pointer_field_Inr:
  "pointer_field F t a \<Longrightarrow> \<exists>p. FieldByName (ValueOf a) F = Inr (Some (VPtr t p))"
  by (auto simp: pointer_field_def split: sum.splits option.splits gval.splits)

lemma StringSorter_eval:
  "FieldByName (ValueOf a) F = Inr va \<Longrightarrow> FieldByName (ValueOf b) F = Inr vb \<Longrightarrow>
   NewStringSorter F asc a b =
     Inr (if asc then Value_String va < Value_String vb else Value_String vb < Value_String va)"
  by (simp add: NewStringSorter_def)

lemma IntSorter_eval:
  "FieldByName (ValueOf a) F = Inr (Some (VInt ka ta ia)) \<Longrightarrow>
   FieldByName (ValueOf b) F = Inr (Some (VInt kb tb ib)) \<Longrightarrow>
   NewIntSorter F asc a b = Inr (if asc then ia <s ib else ib <s ia)"
  by (simp add: NewIntSorter_def)

lemma GenericSorter_string:
  "FieldByName (ValueOf a) F = Inr (Some (VString sa)) \<Longrightarrow>
   FieldByName (ValueOf b) F = Inr vb \<Longrightarrow>
   NewGenericSorter F asc a b = Inr (if asc then sa < Value_String vb else Value_String vb < sa)"
  by (simp add: NewGenericSorter_def)

lemma GenericSorter_int:
  "FieldByName (ValueOf a) F = Inr (Some (VInt ka ta ia)) \<Longrightarrow>
   FieldByName (ValueOf b) F = Inr (Some (VInt kb tb ib)) \<Longrightarrow>
   NewGenericSorter F asc a b = Inr (if asc then ia <s ib else ib <s ia)"
  by (simp add: NewGenericSorter_def)

lemma GenericSorter_float:
  "FieldByName (ValueOf a) F = Inr (Some (VFloat ka ta fa)) \<Longrightarrow>
   FieldByName (ValueOf b) F = Inr (Some (VFloat kb tb fb)) \<Longrightarrow>
   NewGenericSorter F asc a b = Inr (if asc then float_less fa fb else float_less fb fa)"
  by (simp add: NewGenericSorter_def)

lemma IntSorter_not_int:
  "FieldByName (ValueOf a) F = Inr va \<Longrightarrow> FieldByName (ValueOf b) F = Inr vb \<Longrightarrow>
   (\<forall>k. Kind va \<noteq> IntKind k) \<Longrightarrow>
   NewIntSorter F asc a b = Inl (ValueError ''reflect.Value.Int'' (Kind va))"
  by (cases "va" rule: Value_Int.cases) (simp_all add: NewIntSorter_def)

lemma StringSorter_field_string:
  assumes "field_kind F a = Some ka" and "field_kind F b = Some kb"
  shows "NewStringSorter F asc a b =
           Inr (if asc then field_string F a < field_string F b
                else field_string F b < field_string F a)"
proof -
  from assms(1) obtain va where va: "FieldByName (ValueOf a) F = Inr va"
    using field_kind_Inr by blast
  from assms(2) obtain vb where vb: "FieldByName (ValueOf b) F = Inr vb"
    using field_kind_Inr by blast
  show ?thesis
    by (simp add: StringSorter_eval[OF va vb] field_string_def va vb)
qed

lemma StringSorter_strict_weak:
  assumes "\<forall>r\<in>A. \<exists>k. field_kind F r = Some k"
  shows "strict_weak_on A (NewStringSorter F asc)"
proof -
  have ev: "NewStringSorter F d a b =
           Inr (if d then field_string F a < field_string F b
                else field_string F b < field_string F a)" if "a \<in> A" "b \<in> A" for a b d
    using assms that StringSorter_field_string by blast
  show ?thesis
    unfolding strict_weak_on_def
    by (cases asc) (auto simp: ev)
qed

lemma unknown_field_cmp:
  assumes "field_kind F a = Some Invalid" and "field_kind F b = Some Invalid"
  shows "NewStringSorter F asc a b = Inr False"
proof -
  from assms(1) have a: "FieldByName (ValueOf a) F = Inr None"
    by (auto simp: field_kind_def split: sum.splits elim: Kind.elims)
  from assms(2) have b: "FieldByName (ValueOf b) F = Inr None"
    by (auto simp: field_kind_def split: sum.splits elim: Kind.elims)
  show ?thesis by (simp add: NewStringSorter_def a b)
qed

lemma const_false_strict_weak:
  "\<forall>a\<in>A. \<forall>b\<in>A. cmp a b = Inr False \<Longrightarrow> strict_weak_on A cmp"
  by (simp add: strict_weak_on_def)


section \<open>The claims\<close>


subsection \<open>C1: a field of an unsupported kind\<close>

text \<open>
  C1, as the specification states it, fails: on two records whose field \<^verbatim>\<open>Active\<close>
  is a \<^verbatim>\<open>bool\<close>, the comparator of \<^verbatim>\<open>NewGenericSorter\<close> returns \<^verbatim>\<open>false\<close> in
  both orders, which reports the pair as equal; nothing is signalled, and the sort
  returns the slice as it was.
\<close>

theorem generic_sorter_silent_false_counterexample:
  "NewGenericSorter ''Active'' True (Member ''Bob'') (Member ''Alice'') = Inr False \<and>
   NewGenericSorter ''Active'' True (Member ''Alice'') (Member ''Bob'') = Inr False \<and>
   SortWithComparator insertion_only [Member ''Bob'', Member ''Alice''] (NewGenericSorter ''Active'' True)
     = Inr [Member ''Bob'', Member ''Alice'']"
  by (simp add: eval_defs)

text \<open>
  C1, amended: for two struct records of which the first has a field of a kind other
  than string, int to int64 and float32/float64 (an absent field included), the comparator
  of \<^verbatim>\<open>NewGenericSorter\<close> returns a plain \<^verbatim>\<open>false\<close>, in either direction.
\<close>

theorem generic_sorter_default_false:
  assumes "field_kind F a = Some ka" and "\<not> supported ka" and "field_kind F b = Some kb"
  shows "NewGenericSorter F asc a b = Inr False"
proof -
  from assms(1) obtain va where va: "FieldByName (ValueOf a) F = Inr va" "Kind va = ka"
    using field_kind_Inr by blast
  from assms(3) obtain vb where vb: "FieldByName (ValueOf b) F = Inr vb"
    using field_kind_Inr by blast
  from assms(2) va(2) show ?thesis
    by (cases ka rule: supported.cases) (simp_all add: NewGenericSorter_def va(1) vb)
qed

text \<open>
C1, amended, at two records with a \<^verbatim>\<open>bool\<close> field, descending.
\<close>

theorem generic_sorter_default_false_witness:
  "field_kind ''Active'' (Member ''Bob'') = Some (OtherKind Bool) \<and>
   \<not> supported (OtherKind Bool) \<and>
   field_kind ''Active'' (Member ''Alice'') = Some (OtherKind Bool) \<and>
   NewGenericSorter ''Active'' False (Member ''Bob'') (Member ''Alice'') = Inr False"
proof -
  have a: "field_kind ''Active'' (Member ''Bob'') = Some (OtherKind Bool)"
    and b: "field_kind ''Active'' (Member ''Alice'') = Some (OtherKind Bool)"
    by (simp_all add: field_kind_def Member_def)
  have s: "\<not> supported (OtherKind Bool)" by simp
  from generic_sorter_default_false[OF a s b, of False] a b s show ?thesis by simp
qed


subsection \<open>C2: a field name that the records do not have\<close>

text \<open>
  C2, as the specification states it, fails: \<^verbatim>\<open>SortByStringField\<close> on two
  \<^verbatim>\<open>Person\<close> records with the field name \<^verbatim>\<open>DoesNotExist\<close> returns a
  \<^verbatim>\<open>nil\<close> error and the slice as it was, and \<^verbatim>\<open>NewStringSorter\<close> gives a
  comparator, which answers \<^verbatim>\<open>false\<close>.
\<close>

theorem unknown_field_no_error_counterexample:
  "SortByStringField insertion_only [Person ''Bob'' 25, Person ''Alice'' 30] ''DoesNotExist'' True
     = Inr ([Person ''Bob'' 25, Person ''Alice'' 30], None) \<and>
   NewStringSorter ''DoesNotExist'' True (Person ''Bob'' 25) (Person ''Alice'' 30) = Inr False \<and>
   NewStringSorter ''DoesNotExist'' True (Person ''Alice'' 30) (Person ''Bob'' 25) = Inr False"
  by (simp add: eval_defs)

text \<open>
  C2, amended: on struct records none of which has a field of the given name, the
  comparator of \<^verbatim>\<open>NewStringSorter\<close> answers \<^verbatim>\<open>false\<close> for every pair (both
  fields read as \<^verbatim>\<open><invalid Value>\<close>), and \<^verbatim>\<open>SortByStringField\<close> returns a
  \<^verbatim>\<open>nil\<close> error with a permutation of the slice.
\<close>

theorem unknown_field_compares_equal:
  assumes "sort_contract pdq" and "\<forall>r\<in>set xs. field_kind F r = Some Invalid"
  shows "(\<forall>a\<in>set xs. \<forall>b\<in>set xs. NewStringSorter F asc a b = Inr False) \<and>
         (\<exists>ys. SortByStringField pdq xs F asc = Inr (ys, None) \<and> mset ys = mset xs)"
proof -
  have f: "\<forall>a\<in>set xs. \<forall>b\<in>set xs. NewStringSorter F asc a b = Inr False"
    using assms(2) unknown_field_cmp by blast
  from sort_Slice_sorts[OF assms(1) const_false_strict_weak[OF f]]
  obtain ys where "sort_Slice pdq xs (\<lambda>s i j. NewStringSorter F asc (s ! i) (s ! j)) = Inr ys"
    "mset ys = mset xs" by blast
  then have "SortByStringField pdq xs F asc = Inr (ys, None) \<and> mset ys = mset xs"
    by (simp add: SortByStringField_def)
  with f show ?thesis by blast
qed

text \<open>
C2, amended, at two \<^verbatim>\<open>Person\<close> records and the name \<^verbatim>\<open>DoesNotExist\<close>.
\<close>

theorem unknown_field_compares_equal_witness:
  "field_kind ''DoesNotExist'' (Person ''Bob'' 25) = Some Invalid \<and>
   field_kind ''DoesNotExist'' (Person ''Alice'' 30) = Some Invalid \<and>
   NewStringSorter ''DoesNotExist'' True (Person ''Bob'' 25) (Person ''Alice'' 30) = Inr False \<and>
   NewStringSorter ''DoesNotExist'' True (Person ''Alice'' 30) (Person ''Bob'' 25) = Inr False \<and>
   SortByStringField insertion_only [Person ''Bob'' 25, Person ''Alice'' 30] ''DoesNotExist'' True
     = Inr ([Person ''Bob'' 25, Person ''Alice'' 30], None)"
proof -
  have h: "\<forall>r\<in>set [Person ''Bob'' 25, Person ''Alice'' 30]. field_kind ''DoesNotExist'' r = Some Invalid"
    by (simp add: field_kind_def Person_def)
  have e: "SortByStringField insertion_only [Person ''Bob'' 25, Person ''Alice'' 30] ''DoesNotExist'' True
     = Inr ([Person ''Bob'' 25, Person ''Alice'' 30], None)"
    by (simp add: eval_defs)
  from unknown_field_compares_equal[OF insertion_only_contract h, of True] h e
  show ?thesis by simp
qed


subsection \<open>C3: an integer sorter on a string field\<close>

text \<open>
  C3, as the specification states it, fails: \<^verbatim>\<open>NewIntSorter\<close> for the string field
  \<^verbatim>\<open>Name\<close> gives a comparator; it is the evaluation of that comparator, inside the
  sort, that panics, with the \<^verbatim>\<open>ValueError\<close> of \<^verbatim>\<open>reflect.Value.Int\<close>.
\<close>

theorem int_sorter_no_construction_error_counterexample:
  "NewIntSorter ''Name'' True (Person ''Alice'' 30) (Person ''Bob'' 25)
     = Inl (ValueError ''reflect.Value.Int'' String) \<and>
   SortWithComparator insertion_only [Person ''Alice'' 30, Person ''Bob'' 25] (NewIntSorter ''Name'' True)
     = Inl (ValueError ''reflect.Value.Int'' String)"
  by (simp add: eval_defs)

text \<open>
  C3, amended: \<^verbatim>\<open>NewIntSorter\<close> takes no representative record and always gives a
  comparator; on two struct records of which the first holds a string in the named field,
  every evaluation of the comparator panics with
  \<^verbatim>\<open>ValueError{"reflect.Value.Int", String}\<close>.
\<close>

theorem int_sorter_panics_on_string_field:
  assumes "field_kind F a = Some String" and "field_kind F b = Some kb"
  shows "NewIntSorter F asc a b = Inl (ValueError ''reflect.Value.Int'' String)"
proof -
  from assms(1) obtain va where va: "FieldByName (ValueOf a) F = Inr va" "Kind va = String"
    using field_kind_Inr by blast
  from assms(2) obtain vb where vb: "FieldByName (ValueOf b) F = Inr vb"
    using field_kind_Inr by blast
  from IntSorter_not_int[OF va(1) vb, of asc] va(2) show ?thesis by simp
qed

text \<open>
C3, amended, at two \<^verbatim>\<open>Person\<close> records and the field \<^verbatim>\<open>Name\<close>, descending.
\<close>

theorem int_sorter_panics_on_string_field_witness:
  "field_kind ''Name'' (Person ''Alice'' 30) = Some String \<and>
   field_kind ''Name'' (Person ''Bob'' 25) = Some String \<and>
   NewIntSorter ''Name'' False (Person ''Alice'' 30) (Person ''Bob'' 25)
     = Inl (ValueError ''reflect.Value.Int'' String)"
proof -
  have a: "field_kind ''Name'' (Person ''Alice'' 30) = Some String"
    and b: "field_kind ''Name'' (Person ''Bob'' 25) = Some String"
    by (simp_all add: field_kind_def Person_def)
  from int_sorter_panics_on_string_field[OF a b, of False] a b show ?thesis by simp
qed


subsection \<open>C4: the scenario of three records, and stability\<close>

text \<open>
  C4, as the specification states it, fails: the consuming sort is \<^verbatim>\<open>sort.Slice\<close>,
  not \<^verbatim>\<open>sort.SliceStable\<close>, and it is not stable. Twelve records named Bob, with
  the ages 0 to 11, followed by one named Alice, sorted by name, ascending: Alice comes
  first, and the twelve Bobs, which compare equal, come out in the order
  6, 2, 3, 4, 5, 0, 7, 8, 9, 10, 11, 1.
\<close>

theorem sort_Slice_not_stable_counterexample:
  "\<forall>Next. SortWithComparator (sort_Slice_pdqsort Next)
     [Person ''Bob'' 0, Person ''Bob'' 1, Person ''Bob'' 2, Person ''Bob'' 3, Person ''Bob'' 4,
      Person ''Bob'' 5, Person ''Bob'' 6, Person ''Bob'' 7, Person ''Bob'' 8, Person ''Bob'' 9,
      Person ''Bob'' 10, Person ''Bob'' 11, Person ''Alice'' 12]
     (NewStringSorter ''Name'' True)
   = Inr [Person ''Alice'' 12, Person ''Bob'' 6, Person ''Bob'' 2, Person ''Bob'' 3, Person ''Bob'' 4,
      Person ''Bob'' 5, Person ''Bob'' 0, Person ''Bob'' 7, Person ''Bob'' 8, Person ''Bob'' 9,
      Person ''Bob'' 10, Person ''Bob'' 11, Person ''Bob'' 1]"
proof
  fix Next :: "64 word \<Rightarrow> 64 word"
  show "SortWithComparator (sort_Slice_pdqsort Next)
     [Person ''Bob'' 0, Person ''Bob'' 1, Person ''Bob'' 2, Person ''Bob'' 3, Person ''Bob'' 4,
      Person ''Bob'' 5, Person ''Bob'' 6, Person ''Bob'' 7, Person ''Bob'' 8, Person ''Bob'' 9,
      Person ''Bob'' 10, Person ''Bob'' 11, Person ''Alice'' 12]
     (NewStringSorter ''Name'' True)
   = Inr [Person ''Alice'' 12, Person ''Bob'' 6, Person ''Bob'' 2, Person ''Bob'' 3, Person ''Bob'' 4,
      Person ''Bob'' 5, Person ''Bob'' 0, Person ''Bob'' 7, Person ''Bob'' 8, Person ''Bob'' 9,
      Person ''Bob'' 10, Person ''Bob'' 11, Person ''Bob'' 1]"
    by code_simp
qed

text \<open>
  C4, amended: on a slice of at most twelve records, on which the comparator answers
  every pair with a boolean, the sort returns a permutation in which records that
  compare equal keep their relative input order (\<open>P\<close> is any class of records no two
  of which are less than one another). In particular the records Bob 25, Alice 30,
  Alice 20 sorted by name, ascending, come out as Alice 30, Alice 20, Bob 25, with the
  comparator of \<^verbatim>\<open>NewStringSorter\<close> and of \<^verbatim>\<open>NewGenericSorter\<close> under
  \<^verbatim>\<open>SortWithComparator\<close>, and with \<^verbatim>\<open>SortByStringField\<close>, on the \<^verbatim>\<open>Person\<close>
  of the source (field \<^verbatim>\<open>Name\<close>) and on the struct with the field \<^verbatim>\<open>name\<close>.
\<close>

theorem stable_up_to_maxInsertion:
  assumes "length xs \<le> maxInsertion"
    and "\<forall>a\<in>set xs. \<forall>b\<in>set xs. cmp a b = Inr True \<or> cmp a b = Inr False"
    and "\<forall>a\<in>set xs. \<forall>b\<in>set xs. P a \<and> P b \<longrightarrow> cmp a b = Inr False"
  shows "(\<exists>ys. SortWithComparator pdq xs cmp = Inr ys \<and> mset ys = mset xs \<and>
               filter P ys = filter P xs) \<and>
         SortWithComparator pdq [Person ''Bob'' 25, Person ''Alice'' 30, Person ''Alice'' 20]
             (NewStringSorter ''Name'' True)
           = Inr [Person ''Alice'' 30, Person ''Alice'' 20, Person ''Bob'' 25] \<and>
         SortWithComparator pdq [Person ''Bob'' 25, Person ''Alice'' 30, Person ''Alice'' 20]
             (NewGenericSorter ''Name'' True)
           = Inr [Person ''Alice'' 30, Person ''Alice'' 20, Person ''Bob'' 25] \<and>
         SortByStringField pdq [Person ''Bob'' 25, Person ''Alice'' 30, Person ''Alice'' 20] ''Name'' True
           = Inr ([Person ''Alice'' 30, Person ''Alice'' 20, Person ''Bob'' 25], None) \<and>
         SortWithComparator pdq [Entry ''Bob'' 25, Entry ''Alice'' 30, Entry ''Alice'' 20]
             (NewStringSorter ''name'' True)
           = Inr [Entry ''Alice'' 30, Entry ''Alice'' 20, Entry ''Bob'' 25]"
proof -
  have "insertionSort_func (\<lambda>s i j. cmp (s ! i) (s ! j)) 0 (length xs) xs = Inr (isort cmp [] xs)"
    by (rule insertionSort_isort[OF assms(2)])
  moreover have "filter P (isort cmp [] xs) = filter P ([] @ xs)"
    by (rule isort_filter) (use assms(3) in auto)
  ultimately have g: "\<exists>ys. SortWithComparator pdq xs cmp = Inr ys \<and> mset ys = mset xs \<and>
               filter P ys = filter P xs"
    using assms(1) by (simp add: SortWithComparator_def sort_Slice_def mset_isort)
  have s: "SortWithComparator pdq [Person ''Bob'' 25, Person ''Alice'' 30, Person ''Alice'' 20]
             (NewStringSorter ''Name'' True)
           = Inr [Person ''Alice'' 30, Person ''Alice'' 20, Person ''Bob'' 25]"
    "SortWithComparator pdq [Person ''Bob'' 25, Person ''Alice'' 30, Person ''Alice'' 20]
             (NewGenericSorter ''Name'' True)
           = Inr [Person ''Alice'' 30, Person ''Alice'' 20, Person ''Bob'' 25]"
    "SortByStringField pdq [Person ''Bob'' 25, Person ''Alice'' 30, Person ''Alice'' 20] ''Name'' True
           = Inr ([Person ''Alice'' 30, Person ''Alice'' 20, Person ''Bob'' 25], None)"
    "SortWithComparator pdq [Entry ''Bob'' 25, Entry ''Alice'' 30, Entry ''Alice'' 20]
             (NewStringSorter ''name'' True)
           = Inr [Entry ''Alice'' 30, Entry ''Alice'' 20, Entry ''Bob'' 25]"
    by (simp_all add: eval_defs)
  from g s show ?thesis by simp
qed

text \<open>C4, amended, at the three records of the scenario and the class of the records named Alice.\<close>

theorem stable_up_to_maxInsertion_witness:
  "length [Person ''Bob'' 25, Person ''Alice'' 30, Person ''Alice'' 20] \<le> maxInsertion \<and>
   NewStringSorter ''Name'' True (Person ''Alice'' 30) (Person ''Alice'' 20) = Inr False \<and>
   NewStringSorter ''Name'' True (Person ''Alice'' 20) (Person ''Alice'' 30) = Inr False \<and>
   SortWithComparator insertion_only [Person ''Bob'' 25, Person ''Alice'' 30, Person ''Alice'' 20]
       (NewStringSorter ''Name'' True)
     = Inr [Person ''Alice'' 30, Person ''Alice'' 20, Person ''Bob'' 25] \<and>
   filter (\<lambda>r. field_string ''Name'' r = ''Alice'')
       [Person ''Alice'' 30, Person ''Alice'' 20, Person ''Bob'' 25]
     = filter (\<lambda>r. field_string ''Name'' r = ''Alice'')
       [Person ''Bob'' 25, Person ''Alice'' 30, Person ''Alice'' 20]"
proof -
  let ?xs = "[Person ''Bob'' 25, Person ''Alice'' 30, Person ''Alice'' 20]"
  let ?P = "\<lambda>r. field_string ''Name'' r = ''Alice''"
  have l: "length ?xs \<le> maxInsertion" by (simp add: maxInsertion_def)
  have t: "\<forall>a\<in>set ?xs. \<forall>b\<in>set ?xs.
             NewStringSorter ''Name'' True a b = Inr True \<or> NewStringSorter ''Name'' True a b = Inr False"
    by (simp add: NewStringSorter_def Person_def)
  have p: "\<forall>a\<in>set ?xs. \<forall>b\<in>set ?xs. ?P a \<and> ?P b \<longrightarrow> NewStringSorter ''Name'' True a b = Inr False"
    by (simp add: NewStringSorter_def Person_def field_string_def)
  have e: "NewStringSorter ''Name'' True (Person ''Alice'' 30) (Person ''Alice'' 20) = Inr False"
    "NewStringSorter ''Name'' True (Person ''Alice'' 20) (Person ''Alice'' 30) = Inr False"
    by (simp_all add: NewStringSorter_def Person_def)
  have f: "filter ?P [Person ''Alice'' 30, Person ''Alice'' 20, Person ''Bob'' 25] = filter ?P ?xs"
    by (simp add: field_string_def Person_def)
  from stable_up_to_maxInsertion[OF l t p, of insertion_only]
  have "SortWithComparator insertion_only ?xs (NewStringSorter ''Name'' True)
          = Inr [Person ''Alice'' 30, Person ''Alice'' 20, Person ''Bob'' 25]"
    by blast
  with l e f show ?thesis by blast
qed


subsection \<open>C5: sorting by a string field\<close>

text \<open>
  C5: on a slice of records that all hold a string in the field \<open>F\<close>, sorting with the
  comparator of \<^verbatim>\<open>NewStringSorter\<close> for \<open>F\<close>, ascending, returns a permutation of
  the slice in which the values of \<open>F\<close> ascend in the lexicographic order of their
  bytes; \<^verbatim>\<open>SortByStringField\<close> returns the same slice.
\<close>

theorem string_sort_ascending:
  assumes "sort_contract pdq" and "\<forall>r\<in>set xs. field_kind F r = Some String"
  shows "\<exists>ys. SortWithComparator pdq xs (NewStringSorter F True) = Inr ys \<and>
              SortByStringField pdq xs F True = Inr (ys, None) \<and>
              mset ys = mset xs \<and> sorted (map (field_string F) ys)"
proof -
  have sw: "strict_weak_on (set xs) (NewStringSorter F True)"
    using assms(2) by (intro StringSorter_strict_weak) blast
  from sort_Slice_sorts[OF assms(1) sw]
  obtain ys where ys: "sort_Slice pdq xs (\<lambda>s i j. NewStringSorter F True (s ! i) (s ! j)) = Inr ys"
    "mset ys = mset xs" "ordered_by (NewStringSorter F True) ys" by blast
  from ys(2) have set: "set ys = set xs" by (rule mset_eq_setD)
  have "sorted_wrt (\<lambda>a b. field_string F a \<le> field_string F b) ys"
  proof (rule sorted_wrt_mono_rel[OF _ ys(3)[unfolded ordered_by_def]])
    fix a b assume "a \<in> set ys" "b \<in> set ys" and f: "NewStringSorter F True b a = Inr False"
    with set assms(2) have "field_kind F a = Some String" "field_kind F b = Some String" by auto
    from StringSorter_field_string[OF this(2) this(1), of True] f
    show "field_string F a \<le> field_string F b" by simp
  qed
  then have "sorted (map (field_string F) ys)"
    by (simp add: sorted_map)
  with ys(1,2) show ?thesis
    by (auto simp: SortWithComparator_def SortByStringField_def)
qed

text \<open>
C5 at the three \<^verbatim>\<open>Person\<close> records of \<^verbatim>\<open>main\<close>.
\<close>

theorem string_sort_ascending_witness:
  "field_kind ''Name'' (Person ''Charlie'' 35) = Some String \<and>
   field_kind ''Name'' (Person ''Alice'' 30) = Some String \<and>
   field_kind ''Name'' (Person ''Bob'' 25) = Some String \<and>
   SortWithComparator insertion_only [Person ''Charlie'' 35, Person ''Alice'' 30, Person ''Bob'' 25]
       (NewStringSorter ''Name'' True)
     = Inr [Person ''Alice'' 30, Person ''Bob'' 25, Person ''Charlie'' 35] \<and>
   sorted (map (field_string ''Name'') [Person ''Alice'' 30, Person ''Bob'' 25, Person ''Charlie'' 35])"
proof -
  have h: "\<forall>r\<in>set [Person ''Charlie'' 35, Person ''Alice'' 30, Person ''Bob'' 25].
             field_kind ''Name'' r = Some String"
    by (simp add: field_kind_def Person_def)
  have e: "SortWithComparator insertion_only [Person ''Charlie'' 35, Person ''Alice'' 30, Person ''Bob'' 25]
       (NewStringSorter ''Name'' True)
     = Inr [Person ''Alice'' 30, Person ''Bob'' 25, Person ''Charlie'' 35]"
    by (simp add: eval_defs)
  from string_sort_ascending[OF insertion_only_contract h] e h
  show ?thesis by auto
qed


subsection \<open>C6: the comparators are strict orderings\<close>

text \<open>
  C6: on records whose field holds a string, an integer or a float (the same of the three
  for all records), each comparator of \<^verbatim>\<open>NewStringSorter\<close>, \<^verbatim>\<open>NewIntSorter\<close> and
  \<^verbatim>\<open>NewGenericSorter\<close>, ascending or descending, is irreflexive, asymmetric and
  transitive. For strings and integers "not less" is transitive as well; for floats it is
  not, because of NaN.
\<close>

theorem comparator_strict_order:
  assumes "well_formed F k a" and "well_formed F k b" and "well_formed F k c"
    and "cmp \<in> {NewStringSorter F asc, NewIntSorter F asc, NewGenericSorter F asc}"
  shows "cmp a a \<noteq> Inr True \<and>
         \<not> (cmp a b = Inr True \<and> cmp b a = Inr True) \<and>
         (cmp a b = Inr True \<and> cmp b c = Inr True \<longrightarrow> cmp a c = Inr True) \<and>
         (k \<noteq> RFloat \<and> cmp a b = Inr False \<and> cmp b c = Inr False \<longrightarrow> cmp a c = Inr False)"
proof -
  from assms(1) obtain va where va: "FieldByName (ValueOf a) F = Inr va"
    by (auto simp: well_formed_def split: sum.splits)
  from assms(2) obtain vb where vb: "FieldByName (ValueOf b) F = Inr vb"
    by (auto simp: well_formed_def split: sum.splits)
  from assms(3) obtain vc where vc: "FieldByName (ValueOf c) F = Inr vc"
    by (auto simp: well_formed_def split: sum.splits)
  note S = StringSorter_eval[OF va va] StringSorter_eval[OF va vb] StringSorter_eval[OF vb va]
    StringSorter_eval[OF vb vc] StringSorter_eval[OF va vc]
  have str: ?thesis if "cmp = NewStringSorter F asc"
    unfolding that S by (cases asc) auto
  have int: ?thesis if "cmp = NewIntSorter F asc"
  proof (cases k)
    case RInteger
    from assms(1) RInteger obtain ka ta ia where a: "FieldByName (ValueOf a) F = Inr (Some (VInt ka ta ia))"
      by (auto elim: well_formed_cases)
    from assms(2) RInteger obtain kb tb ib where b: "FieldByName (ValueOf b) F = Inr (Some (VInt kb tb ib))"
      by (auto elim: well_formed_cases)
    from assms(3) RInteger obtain kc tc ic where c: "FieldByName (ValueOf c) F = Inr (Some (VInt kc tc ic))"
      by (auto elim: well_formed_cases)
    show ?thesis
      unfolding that IntSorter_eval[OF a a] IntSorter_eval[OF a b] IntSorter_eval[OF b a]
        IntSorter_eval[OF b c] IntSorter_eval[OF a c]
      by (cases asc) (auto simp: word_sless_alt)
  next
    case RString
    from assms(1) RString obtain s where "FieldByName (ValueOf a) F = Inr (Some (VString s))"
      by (auto elim: well_formed_cases)
    with va have a: "va = Some (VString s)" by simp
    have "NewIntSorter F asc a x = Inl (ValueError ''reflect.Value.Int'' String)" if "FieldByName (ValueOf x) F = Inr vx" for x vx
      using IntSorter_not_int[OF va that] a by simp
    from this[OF va] this[OF vb] this[OF vc] show ?thesis
      unfolding \<open>cmp = NewIntSorter F asc\<close> by simp
  next
    case RFloat
    from assms(1) RFloat obtain fk t f where "FieldByName (ValueOf a) F = Inr (Some (VFloat fk t f))"
      by (auto elim: well_formed_cases)
    with va have a: "va = Some (VFloat fk t f)" by simp
    have "NewIntSorter F asc a x = Inl (ValueError ''reflect.Value.Int'' (FloatKind fk))" if "FieldByName (ValueOf x) F = Inr vx" for x vx
      using IntSorter_not_int[OF va that] a by simp
    from this[OF va] this[OF vb] this[OF vc] show ?thesis
      unfolding \<open>cmp = NewIntSorter F asc\<close> by simp
  qed
  have gen: ?thesis if "cmp = NewGenericSorter F asc"
  proof (cases k)
    case RInteger
    from assms(1) RInteger obtain ka ta ia where a: "FieldByName (ValueOf a) F = Inr (Some (VInt ka ta ia))"
      by (auto elim: well_formed_cases)
    from assms(2) RInteger obtain kb tb ib where b: "FieldByName (ValueOf b) F = Inr (Some (VInt kb tb ib))"
      by (auto elim: well_formed_cases)
    from assms(3) RInteger obtain kc tc ic where c: "FieldByName (ValueOf c) F = Inr (Some (VInt kc tc ic))"
      by (auto elim: well_formed_cases)
    show ?thesis
      unfolding that GenericSorter_int[OF a a] GenericSorter_int[OF a b] GenericSorter_int[OF b a]
        GenericSorter_int[OF b c] GenericSorter_int[OF a c]
      by (cases asc) (auto simp: word_sless_alt)
  next
    case RString
    from assms(1) RString obtain sa where a: "FieldByName (ValueOf a) F = Inr (Some (VString sa))"
      by (auto elim: well_formed_cases)
    from assms(2) RString obtain sb where b: "FieldByName (ValueOf b) F = Inr (Some (VString sb))"
      by (auto elim: well_formed_cases)
    from assms(3) RString obtain sc where c: "FieldByName (ValueOf c) F = Inr (Some (VString sc))"
      by (auto elim: well_formed_cases)
    show ?thesis
      unfolding that GenericSorter_string[OF a a] GenericSorter_string[OF a b] GenericSorter_string[OF b a]
        GenericSorter_string[OF b c] GenericSorter_string[OF a c]
      by (cases asc) auto
  next
    case RFloat
    from assms(1) RFloat obtain ka ta fa where a: "FieldByName (ValueOf a) F = Inr (Some (VFloat ka ta fa))"
      by (auto elim: well_formed_cases)
    from assms(2) RFloat obtain kb tb fb where b: "FieldByName (ValueOf b) F = Inr (Some (VFloat kb tb fb))"
      by (auto elim: well_formed_cases)
    from assms(3) RFloat obtain kc tc fc where c: "FieldByName (ValueOf c) F = Inr (Some (VFloat kc tc fc))"
      by (auto elim: well_formed_cases)
    show ?thesis
      unfolding that GenericSorter_float[OF a a] GenericSorter_float[OF a b] GenericSorter_float[OF b a]
        GenericSorter_float[OF b c] GenericSorter_float[OF a c]
      using RFloat
      by (cases asc) (auto simp: float_less_irrefl dest: float_less_asym float_less_trans)
  qed
  from assms(4) str int gen show ?thesis by blast
qed

text \<open>
C6 at three \<^verbatim>\<open>Person\<close> records and the field \<^verbatim>\<open>Age\<close>, ascending.
\<close>

theorem comparator_strict_order_witness:
  "well_formed ''Age'' RInteger (Person ''Alice'' 20) \<and>
   well_formed ''Age'' RInteger (Person ''Bob'' 25) \<and>
   well_formed ''Age'' RInteger (Person ''Alice'' 30) \<and>
   NewIntSorter ''Age'' True (Person ''Alice'' 20) (Person ''Bob'' 25) = Inr True \<and>
   NewIntSorter ''Age'' True (Person ''Bob'' 25) (Person ''Alice'' 30) = Inr True \<and>
   NewIntSorter ''Age'' True (Person ''Alice'' 20) (Person ''Alice'' 30) = Inr True \<and>
   NewIntSorter ''Age'' True (Person ''Bob'' 25) (Person ''Alice'' 20) \<noteq> Inr True \<and>
   NewIntSorter ''Age'' True (Person ''Alice'' 20) (Person ''Alice'' 20) \<noteq> Inr True"
proof -
  have w: "well_formed ''Age'' RInteger (Person ''Alice'' 20)"
    "well_formed ''Age'' RInteger (Person ''Bob'' 25)"
    "well_formed ''Age'' RInteger (Person ''Alice'' 30)"
    by (simp_all add: well_formed_def Person_def)
  have e: "NewIntSorter ''Age'' True (Person ''Alice'' 20) (Person ''Bob'' 25) = Inr True"
    "NewIntSorter ''Age'' True (Person ''Bob'' 25) (Person ''Alice'' 30) = Inr True"
    by (simp_all add: NewIntSorter_def Person_def)
  from comparator_strict_order[OF w, of "NewIntSorter ''Age'' True" True] w e
  show ?thesis by simp
qed


subsection \<open>C7: a missing value\<close>

text \<open>
  C7, as the specification states it, fails: a record whose \<^verbatim>\<open>Nickname\<close> is a nil
  pointer, placed before a record with a nickname, stays before it after the sort, in
  both directions.
\<close>

theorem missing_value_not_last_counterexample:
  "SortWithComparator insertion_only [Nicknamed ''Zed'' None, Nicknamed ''Amy'' (Some ''Al'')]
       (NewStringSorter ''Nickname'' True)
     = Inr [Nicknamed ''Zed'' None, Nicknamed ''Amy'' (Some ''Al'')] \<and>
   SortWithComparator insertion_only [Nicknamed ''Zed'' None, Nicknamed ''Amy'' (Some ''Al'')]
       (NewStringSorter ''Nickname'' False)
     = Inr [Nicknamed ''Zed'' None, Nicknamed ''Amy'' (Some ''Al'')] \<and>
   SortWithComparator insertion_only [Nicknamed ''Zed'' None, Nicknamed ''Amy'' (Some ''Al'')]
       (NewGenericSorter ''Nickname'' True)
     = Inr [Nicknamed ''Zed'' None, Nicknamed ''Amy'' (Some ''Al'')]"
  by (simp add: eval_defs)

text \<open>
  C7, amended: the comparators do not look through a pointer. For two records whose
  field is a pointer of one type, nil or not, the comparators of \<^verbatim>\<open>NewStringSorter\<close>
  and \<^verbatim>\<open>NewGenericSorter\<close> answer \<^verbatim>\<open>false\<close> in either direction, so a record
  with a missing value is ordered neither before nor after the others, and the
  comparator of \<^verbatim>\<open>NewIntSorter\<close> panics.
\<close>

theorem pointer_field_never_less:
  assumes "pointer_field F t a" and "pointer_field F t b"
  shows "NewStringSorter F asc a b = Inr False \<and>
         NewGenericSorter F asc a b = Inr False \<and>
         NewIntSorter F asc a b = Inl (ValueError ''reflect.Value.Int'' Pointer)"
proof -
  from assms(1) obtain p where a: "FieldByName (ValueOf a) F = Inr (Some (VPtr t p))"
    using pointer_field_Inr by blast
  from assms(2) obtain q where b: "FieldByName (ValueOf b) F = Inr (Some (VPtr t q))"
    using pointer_field_Inr by blast
  show ?thesis
    by (simp add: NewStringSorter_def NewGenericSorter_def NewIntSorter_def a b)
qed

text \<open>
C7, amended, at a record with a nickname and a record without one.
\<close>

theorem pointer_field_never_less_witness:
  "pointer_field ''Nickname'' ''*string'' (Nicknamed ''Zed'' None) \<and>
   pointer_field ''Nickname'' ''*string'' (Nicknamed ''Amy'' (Some ''Al'')) \<and>
   NewStringSorter ''Nickname'' True (Nicknamed ''Amy'' (Some ''Al'')) (Nicknamed ''Zed'' None) = Inr False \<and>
   NewGenericSorter ''Nickname'' True (Nicknamed ''Amy'' (Some ''Al'')) (Nicknamed ''Zed'' None) = Inr False \<and>
   NewIntSorter ''Nickname'' True (Nicknamed ''Amy'' (Some ''Al'')) (Nicknamed ''Zed'' None)
     = Inl (ValueError ''reflect.Value.Int'' Pointer)"
proof -
  have a: "pointer_field ''Nickname'' ''*string'' (Nicknamed ''Zed'' None)"
    and b: "pointer_field ''Nickname'' ''*string'' (Nicknamed ''Amy'' (Some ''Al''))"
    by (simp_all add: pointer_field_def Nicknamed_def)
  from pointer_field_never_less[OF b a, of True] a b show ?thesis by simp
qed


subsection \<open>C9: the iterator and the slice of all elements\<close>

text \<open>
  C9: for a list built from the empty list by \<^verbatim>\<open>Push\<close> of the values \<open>vs\<close>, in any
  heap, collecting the iterator \<^verbatim>\<open>All()\<close> and calling \<^verbatim>\<open>AllElements()\<close> both
  return, and both return \<open>vs\<close>: the same elements in the order they were pushed.
\<close>

theorem All_equals_AllElements:
  "Collect_seq (All_List (foldl Push (empty_List, h0) vs)) = Some vs \<and>
   AllElements (foldl Push (empty_List, h0) vs) = Some vs"
proof -
  have "represents (empty_List, h0) [] []"
    by (simp add: represents_def empty_List_def)
  from pushes_represent[OF this, of vs]
  obtain bs where r: "represents (foldl Push (empty_List, h0) vs) bs vs" by auto
  let ?st = "foldl Push (empty_List, h0) vs"
  from r have c: "cells (snd ?st) (head (fst ?st)) bs"
    and m: "map (\<lambda>a. val (snd ?st ! a)) bs = vs"
    by (simp_all add: represents_def)
  show ?thesis
    using All_loop_cells[OF c, of "[]"] AllElements_loop_cells[OF c, of "[]"] m
    by (simp add: Collect_seq_def All_List_def AllElements_def)
qed


end
